theory Spec2Isabelle
  imports Complex_Main "HOL-Library.Multiset"
begin

section \<open>JavaScript numbers\<close>

text \<open>
  The calculators of \<^verbatim>\<open>src/js/functions.js\<close> compute with JavaScript Numbers. A Number is
  \<open>NaN\<close>, one of the two infinities, or a finite value, kept here as the real number it
  denotes. The negative zero is not told apart from zero: the two compare equal and print
  the same, and a division of a nonzero number by zero takes its sign from the dividend.

  Every arithmetic operation yields the exact result of the operation, rounded to a
  Number. The rounding is a parameter \<open>fl\<close> of the model, with two instances:
  \<^item> \<open>exact\<close> keeps the exact real result (arithmetic without representation error);
  \<^item> \<open>binary64\<close> rounds to the nearest IEEE 754 double, ties to even, as the
    language prescribes for \<^verbatim>\<open>+\<close>, \<^verbatim>\<open>-\<close>, \<^verbatim>\<open>*\<close>, \<^verbatim>\<open>/\<close>, numeric literals and \<^verbatim>\<open>parseFloat\<close>.
\<close>

datatype number = NaN | PosInf | NegInf | Fin real

type_synonym rounding = "real \<Rightarrow> number"

definition exact :: rounding where
  "exact x = Fin x"

definition round_half_even :: "real \<Rightarrow> int" where
  "round_half_even q =
     (let f = \<lfloor>q\<rfloor>; r = q - of_int f
      in if r < 1 / 2 then f else if 1 / 2 < r then f + 1 else if even f then f else f + 1)"

text \<open>
  A double has a significand of 53 bits and a least exponent of \<open>-1074\<close>: \<open>expo64 x\<close> is
  the exponent of the last bit of the doubles next to \<open>x\<close>. A result of magnitude
  \<open>2 ^ 1024\<close> or more overflows to an infinity.
\<close>

definition expo64 :: "real \<Rightarrow> int" where
  "expo64 x = max (\<lfloor>log 2 \<bar>x\<bar>\<rfloor> - 52) (- 1074)"

definition nearest64 :: "real \<Rightarrow> real" where
  "nearest64 x =
     (if x = 0 then 0
      else of_int (round_half_even (x / 2 powr of_int (expo64 x))) * 2 powr of_int (expo64 x))"

definition binary64 :: rounding where
  "binary64 x =
     (let y = nearest64 x
      in if 2 ^ 1024 \<le> y then PosInf else if y \<le> - (2 ^ 1024) then NegInf else Fin y)"

text \<open>The finite doubles, for stating what \<open>binary64\<close> returns.\<close>

definition is_double :: "real \<Rightarrow> bool" where
  "is_double z =
     (\<bar>z\<bar> < 2 ^ 1024
      \<and> (\<exists>m e. \<bar>m\<bar> < (2 :: int) ^ 53 \<and> (- 1074 :: int) \<le> e \<and> z = of_int m * 2 powr of_int e))"

fun isNaN :: "number \<Rightarrow> bool" where
  "isNaN NaN = True"
| "isNaN _ = False"

fun neg :: "number \<Rightarrow> number" where
  "neg NaN = NaN"
| "neg PosInf = NegInf"
| "neg NegInf = PosInf"
| "neg (Fin x) = Fin (- x)"

fun add :: "rounding \<Rightarrow> number \<Rightarrow> number \<Rightarrow> number" where
  "add fl (Fin x) (Fin y) = fl (x + y)"
| "add fl NaN b = NaN"
| "add fl a NaN = NaN"
| "add fl PosInf NegInf = NaN"
| "add fl NegInf PosInf = NaN"
| "add fl PosInf b = PosInf"
| "add fl a PosInf = PosInf"
| "add fl NegInf b = NegInf"
| "add fl a NegInf = NegInf"

definition sub :: "rounding \<Rightarrow> number \<Rightarrow> number \<Rightarrow> number" where
  "sub fl a b = add fl a (neg b)"

fun mul :: "rounding \<Rightarrow> number \<Rightarrow> number \<Rightarrow> number" where
  "mul fl (Fin x) (Fin y) = fl (x * y)"
| "mul fl NaN b = NaN"
| "mul fl a NaN = NaN"
| "mul fl PosInf (Fin y) = (if y = 0 then NaN else if 0 < y then PosInf else NegInf)"
| "mul fl NegInf (Fin y) = (if y = 0 then NaN else if 0 < y then NegInf else PosInf)"
| "mul fl (Fin x) PosInf = (if x = 0 then NaN else if 0 < x then PosInf else NegInf)"
| "mul fl (Fin x) NegInf = (if x = 0 then NaN else if 0 < x then NegInf else PosInf)"
| "mul fl PosInf PosInf = PosInf"
| "mul fl PosInf NegInf = NegInf"
| "mul fl NegInf PosInf = NegInf"
| "mul fl NegInf NegInf = PosInf"

fun divide_num :: "rounding \<Rightarrow> number \<Rightarrow> number \<Rightarrow> number" where
  "divide_num fl (Fin x) (Fin y) =
     (if y = 0 then (if x = 0 then NaN else if 0 < x then PosInf else NegInf)
      else fl (x / y))"
| "divide_num fl NaN b = NaN"
| "divide_num fl a NaN = NaN"
| "divide_num fl (Fin x) PosInf = Fin 0"
| "divide_num fl (Fin x) NegInf = Fin 0"
| "divide_num fl PosInf (Fin y) = (if 0 \<le> y then PosInf else NegInf)"
| "divide_num fl NegInf (Fin y) = (if 0 \<le> y then NegInf else PosInf)"
| "divide_num fl PosInf b = NaN"
| "divide_num fl NegInf b = NaN"

text \<open>The comparison \<^verbatim>\<open>a < b\<close>; \<^verbatim>\<open>a > b\<close> is \<open>lt b a\<close>. A comparison with \<open>NaN\<close> is false.\<close>

fun lt :: "number \<Rightarrow> number \<Rightarrow> bool" where
  "lt (Fin x) (Fin y) = (x < y)"
| "lt NaN b = False"
| "lt a NaN = False"
| "lt a NegInf = False"
| "lt PosInf b = False"
| "lt NegInf b = True"
| "lt a PosInf = True"

definition gt :: "number \<Rightarrow> number \<Rightarrow> bool" where
  "gt a b = lt b a"

subsection \<open>The functions of \<open>Math\<close>\<close>

text \<open>
  \<^verbatim>\<open>Math.atan\<close> and \<^verbatim>\<open>Math.tan\<close> are the real functions, their value rounded by \<open>fl\<close>;
  \<^verbatim>\<open>Math.PI\<close> is \<open>pi\<close> rounded by \<open>fl\<close>. \<^verbatim>\<open>Math.round\<close> rounds to the nearest integer, a
  half towards positive infinity; it and \<^verbatim>\<open>Math.abs\<close> are exact.
\<close>

definition Math_PI :: "rounding \<Rightarrow> number" where
  "Math_PI fl = fl pi"

fun Math_atan :: "rounding \<Rightarrow> number \<Rightarrow> number" where
  "Math_atan fl (Fin x) = fl (arctan x)"
| "Math_atan fl PosInf = fl (pi / 2)"
| "Math_atan fl NegInf = fl (- (pi / 2))"
| "Math_atan fl NaN = NaN"

fun Math_tan :: "rounding \<Rightarrow> number \<Rightarrow> number" where
  "Math_tan fl (Fin x) = fl (tan x)"
| "Math_tan fl _ = NaN"

fun Math_round :: "number \<Rightarrow> number" where
  "Math_round (Fin x) = Fin (of_int \<lfloor>x + 1 / 2\<rfloor>)"
| "Math_round a = a"

fun Math_abs :: "number \<Rightarrow> number" where
  "Math_abs (Fin x) = Fin \<bar>x\<bar>"
| "Math_abs NegInf = PosInf"
| "Math_abs a = a"

subsection \<open>Reading and printing numbers\<close>

text \<open>
  The text of a form field, and the string \<^verbatim>\<open>toFixed\<close> returns, is kept as the number its
  decimal digits denote (\<open>NaN\<close> for a text with no numeric prefix). \<^verbatim>\<open>parseFloat\<close> turns
  it into a Number by rounding with \<open>fl\<close>.
\<close>

datatype js_error = RangeError | TypeError

definition and_then :: "js_error + 'a \<Rightarrow> ('a \<Rightarrow> js_error + 'b) \<Rightarrow> js_error + 'b" where
  "and_then m f = (case m of Inl e \<Rightarrow> Inl e | Inr x \<Rightarrow> f x)"

fun parseFloat :: "rounding \<Rightarrow> number \<Rightarrow> number" where
  "parseFloat fl (Fin r) = fl r"
| "parseFloat fl a = a"

text \<open>
  \<^verbatim>\<open>x.toFixed(f)\<close> for a finite \<open>x\<close> below \<open>10^21\<close> in magnitude: the digits of the integer
  \<open>n\<close> for which \<open>n / 10^f\<close> is nearest to \<open>\<bar>x\<bar>\<close>, the larger \<open>n\<close> of two, with the sign of
  \<open>x\<close>. From \<open>10^21\<close> on, \<^verbatim>\<open>toFixed\<close> prints the number itself.
\<close>

definition fixed_int :: "real \<Rightarrow> nat \<Rightarrow> int" where
  "fixed_int x f =
     (if x < 0 then - \<lfloor>- x * 10 ^ f + 1 / 2\<rfloor> else \<lfloor>x * 10 ^ f + 1 / 2\<rfloor>)"

definition fixed_digits :: "real \<Rightarrow> nat \<Rightarrow> real" where
  "fixed_digits x f = of_int (fixed_int x f) / 10 ^ f"

definition normalized :: "real \<Rightarrow> nat \<Rightarrow> real" where
  "normalized x f = (if 10 ^ 21 \<le> \<bar>x\<bar> then x else fixed_digits x f)"

fun toFixed_digits :: "number \<Rightarrow> nat \<Rightarrow> number" where
  "toFixed_digits (Fin x) f = Fin (normalized x f)"
| "toFixed_digits a f = a"

definition toFixed :: "number \<Rightarrow> int \<Rightarrow> js_error + number" where
  "toFixed x fractionDigits =
     (if fractionDigits < 0 \<or> 100 < fractionDigits then Inl RangeError
      else Inr (toFixed_digits x (nat fractionDigits)))"

section \<open>The calculators\<close>

subsection \<open>normalizeNumber\<close>

definition normalizeNumber :: "rounding \<Rightarrow> number \<Rightarrow> int \<Rightarrow> js_error + number" where
  "normalizeNumber fl value_text decimalPlaces =
     and_then (toFixed (parseFloat fl value_text) decimalPlaces) (\<lambda>s. Inr (parseFloat fl s))"

text \<open>The value of the checked button of a radio group; reading it raises when none is checked.\<close>

fun checked_value :: "'a option \<Rightarrow> js_error + 'a" where
  "checked_value None = Inl TypeError"
| "checked_value (Some v) = Inr v"

subsection \<open>calculateVolumetric\<close>

record volumetric_form =
  layerHeight_text :: number
  nozzleDiameter_checked :: "number option"
  calculationOption_checked :: "string option"
  printSpeed_text :: number
  volumetricSpeed_text :: number

datatype alert =
  HeightOutOfProportion | InformLayerHeight | InformNozzleDiameter
  | InformPrintSpeed | InformVolumetricSpeed

datatype volumetric_result = VolumetricSpeedCalculated number | PrintSpeedCalculated number

record volumetric_page =
  alertMessage :: "alert list"
  result_text :: "volumetric_result option"

definition calculateVolumetric :: "rounding \<Rightarrow> volumetric_form \<Rightarrow> js_error + volumetric_page" where
  "calculateVolumetric fl form =
     and_then (normalizeNumber fl (layerHeight_text form) 2) (\<lambda>layerHeight.
     and_then (checked_value (nozzleDiameter_checked form)) (\<lambda>nozzle_text.
     and_then (normalizeNumber fl nozzle_text 1) (\<lambda>nozzleDiameter.
     and_then (checked_value (calculationOption_checked form)) (\<lambda>option.
     and_then (normalizeNumber fl (mul fl nozzleDiameter (fl (2 / 10))) 2) (\<lambda>minHeight.
     and_then (normalizeNumber fl (mul fl nozzleDiameter (fl (8 / 10))) 2) (\<lambda>maxHeight.
     let alerts1 =
           (if \<not> isNaN layerHeight \<and> \<not> isNaN nozzleDiameter
               \<and> (lt layerHeight minHeight \<or> gt layerHeight maxHeight)
            then [HeightOutOfProportion] else []);
         alerts2 = alerts1 @ (if isNaN layerHeight then [InformLayerHeight] else []);
         alerts3 = alerts2 @ (if isNaN nozzleDiameter then [InformNozzleDiameter] else [])
     in
       if option = ''volumetricSpeed'' then
         and_then (normalizeNumber fl (printSpeed_text form) 2) (\<lambda>printSpeed.
           if isNaN printSpeed
           then Inr \<lparr>alertMessage = alerts3 @ [InformPrintSpeed], result_text = None\<rparr>
           else
             and_then
               (normalizeNumber fl (mul fl (mul fl layerHeight nozzleDiameter) printSpeed) 2)
               (\<lambda>result.
                  Inr \<lparr>alertMessage = alerts3,
                       result_text = Some (VolumetricSpeedCalculated result)\<rparr>))
       else
         and_then (normalizeNumber fl (volumetricSpeed_text form) 2) (\<lambda>volumetricSpeed.
           if isNaN volumetricSpeed
           then Inr \<lparr>alertMessage = alerts3 @ [InformVolumetricSpeed], result_text = None\<rparr>
           else
             and_then
               (normalizeNumber fl
                  (divide_num fl volumetricSpeed (mul fl layerHeight nozzleDiameter)) 2)
               (\<lambda>result.
                  Inr \<lparr>alertMessage = alerts3,
                       result_text = Some (PrintSpeedCalculated result)\<rparr>))))))))"

subsection \<open>calculateCriticalExtrusionAngle\<close>

text \<open>
  The page shows one of three texts: the request for valid values, or the angle under one
  of the two slicer conventions. No checked slicer button means \<open>orca\<close>.
\<close>

datatype angle_message = EnterValidValues | MaxAngleOrcaSlicer number | MaxAngleCura number

definition calculateCriticalExtrusionAngle ::
    "rounding \<Rightarrow> number option \<Rightarrow> number \<Rightarrow> string option \<Rightarrow> js_error + angle_message" where
  "calculateCriticalExtrusionAngle fl nozzle_checked layerHeight_input slicerRadio =
     and_then (checked_value nozzle_checked) (\<lambda>nozzle_text.
     and_then (normalizeNumber fl nozzle_text 1) (\<lambda>nozzleDiameter.
     and_then (normalizeNumber fl layerHeight_input 2) (\<lambda>layerHeight.
     let slicer = (case slicerRadio of None \<Rightarrow> ''orca'' | Some v \<Rightarrow> v)
     in
       if isNaN nozzleDiameter \<or> isNaN layerHeight then Inr EnterValidValues
       else
         let extrusionWidth = nozzleDiameter
         in
           and_then
             (normalizeNumber fl (divide_num fl layerHeight (divide_num fl extrusionWidth (fl 2))) 2)
             (\<lambda>ratio.
           let angleRad = Math_atan fl ratio
           in
             and_then
               (normalizeNumber fl
                  (sub fl (fl 90) (divide_num fl (mul fl angleRad (fl 180)) (Math_PI fl))) 2)
               (\<lambda>overhangAngle.
             if slicer = ''orca'' then
               and_then (normalizeNumber fl (sub fl (fl 90) overhangAngle) 2)
                 (\<lambda>overhangAngle. Inr (MaxAngleOrcaSlicer overhangAngle))
             else Inr (MaxAngleCura overhangAngle))))))"

subsection \<open>calculateNewFlow\<close>

text \<open>
  The twenty fields \<^verbatim>\<open>wall1_1\<close> to \<^verbatim>\<open>wall4_5\<close>, in the order the two loops read them, and the
  measurements they push: the normalised values that are not \<open>NaN\<close>.
\<close>

definition wall_texts :: "(nat \<Rightarrow> nat \<Rightarrow> number) \<Rightarrow> number list" where
  "wall_texts wall = concat (map (\<lambda>i. map (\<lambda>j. wall i j) [1..<6]) [1..<5])"

fun push_measurements :: "rounding \<Rightarrow> number list \<Rightarrow> js_error + number list" where
  "push_measurements fl [] = Inr []"
| "push_measurements fl (text # texts) =
     and_then (normalizeNumber fl text 2) (\<lambda>value.
     and_then (push_measurements fl texts) (\<lambda>measurements.
       Inr (if \<not> isNaN value then value # measurements else measurements)))"

datatype flow_message = FillAllMeasurements | InformWidthAndFlow | NewFlowRecommended number

definition calculateNewFlow ::
    "rounding \<Rightarrow> (nat \<Rightarrow> nat \<Rightarrow> number) \<Rightarrow> number \<Rightarrow> number \<Rightarrow> js_error + flow_message" where
  "calculateNewFlow fl wall extrusionWidthSlicer_text flowSlicer_text =
     and_then (push_measurements fl (wall_texts wall)) (\<lambda>measurements.
     if length measurements \<noteq> 20 then Inr FillAllMeasurements
     else
       let sumMeasurements = foldl (add fl) (fl 0) measurements
       in
         and_then
           (normalizeNumber fl
              (divide_num fl sumMeasurements (fl (of_nat (length measurements)))) 2)
           (\<lambda>avgMeasurements.
         and_then (normalizeNumber fl extrusionWidthSlicer_text 2) (\<lambda>extrusionWidth.
         and_then (normalizeNumber fl flowSlicer_text 2) (\<lambda>configuredFlow.
         if isNaN extrusionWidth \<or> isNaN configuredFlow then Inr InformWidthAndFlow
         else
           and_then
             (normalizeNumber fl
                (mul fl (divide_num fl extrusionWidth avgMeasurements) configuredFlow) 2)
             (\<lambda>newFlow. Inr (NewFlowRecommended newFlow))))))"

subsection \<open>calculatePBC\<close>

text \<open>
  The page shows the range message, or the nozzle and the layer height: in red with the
  advice to choose another angle, or marked valid.
\<close>

datatype height_message =
  AngleOutOfRange | HeightOutOfBounds number number | HeightValid number number

definition calculatePBC ::
    "rounding \<Rightarrow> number \<Rightarrow> string option \<Rightarrow> number option \<Rightarrow> js_error + height_message" where
  "calculatePBC fl angle_text software_checked nozzle_checked =
     and_then (normalizeNumber fl angle_text 2) (\<lambda>angleInput.
     and_then (checked_value software_checked) (\<lambda>selectedSoftware.
     and_then (checked_value nozzle_checked) (\<lambda>nozzle_text.
     and_then (normalizeNumber fl nozzle_text 1) (\<lambda>selectedNozzle.
     if isNaN angleInput \<or> lt angleInput (fl 1) \<or> gt angleInput (fl 89)
     then Inr AngleOutOfRange
     else
       let orcaAngle =
             (if selectedSoftware = ''orca'' then angleInput else sub fl (fl 90) angleInput);
           angleRad = mul fl orcaAngle (divide_num fl (Math_PI fl) (fl 180))
       in
         and_then
           (normalizeNumber fl
              (mul fl (Math_tan fl angleRad) (divide_num fl selectedNozzle (fl 2))) 2)
           (\<lambda>layerHeight.
         and_then (normalizeNumber fl layerHeight 2) (\<lambda>formattedHeight.
         and_then (normalizeNumber fl (mul fl selectedNozzle (fl (2 / 10))) 2) (\<lambda>minHeight.
         and_then (normalizeNumber fl (mul fl selectedNozzle (fl (8 / 10))) 2) (\<lambda>maxHeight.
         let outOfLimits = (lt formattedHeight minHeight \<or> gt formattedHeight maxHeight)
         in
           and_then
             (normalizeNumber fl
                (mul fl (Math_round (divide_num fl formattedHeight (fl (2 / 100)))) (fl (2 / 100)))
                2)
             (\<lambda>roundedOnce.
           and_then (normalizeNumber fl roundedOnce 2) (\<lambda>roundedHeight.
           let isWithinBounds =
                 lt (Math_abs (sub fl formattedHeight roundedHeight)) (fl (1 / 1000))
           in
             if \<not> isWithinBounds \<or> outOfLimits
             then Inr (HeightOutOfBounds selectedNozzle formattedHeight)
             else Inr (HeightValid selectedNozzle formattedHeight)))))))))))"

section \<open>The formulas of the specification and the inputs of the examples\<close>

text \<open>
  The specification's formula for the corrected flow, in its words: the configured width
  over the arithmetic mean of the measurements, times the configured flow.
\<close>

definition spec_newFlow :: "real list \<Rightarrow> real \<Rightarrow> real \<Rightarrow> real" where
  "spec_newFlow measurements w f = (w / (sum_list measurements / of_nat (length measurements))) * f"

text \<open>
  The specification's formula for the raw overhang angle, in its words: ninety degrees less
  the arc tangent of the layer height over half the nozzle diameter, in degrees.
\<close>

definition spec_rawAngle :: "real \<Rightarrow> real \<Rightarrow> real" where
  "spec_rawAngle d h = 90 - arctan (h / (d / 2)) * 180 / pi"

text \<open>
  The specification's formula for the layer height, in its words: the tangent of the
  effective angle in radians, times half the nozzle diameter, normalised to two decimals.
\<close>

definition spec_layerHeight :: "real \<Rightarrow> real \<Rightarrow> real" where
  "spec_layerHeight effectiveAngle d = normalized (tan (effectiveAngle * pi / 180) * (d / 2)) 2"

text \<open>The slicer convention in force: that of the checked button, \<open>orca\<close> when none is.\<close>

definition slicer_of :: "string option \<Rightarrow> string" where
  "slicer_of slicerRadio = (case slicerRadio of None \<Rightarrow> ''orca'' | Some v \<Rightarrow> v)"

text \<open>Fillings of the twenty wall fields.\<close>

definition wall_19_of_42 :: "nat \<Rightarrow> nat \<Rightarrow> number" where
  "wall_19_of_42 i j = (if i = 4 \<and> j = 5 then Fin (43 / 100) else Fin (42 / 100))"

definition wall_40_then_41 :: "nat \<Rightarrow> nat \<Rightarrow> number" where
  "wall_40_then_41 i j = (if i \<le> 2 then Fin (40 / 100) else Fin (41 / 100))"

definition wall_41_then_40 :: "nat \<Rightarrow> nat \<Rightarrow> number" where
  "wall_41_then_40 i j = (if i \<le> 2 then Fin (41 / 100) else Fin (40 / 100))"

section \<open>Evaluating the model\<close>

lemma and_then_Inr [simp]: "and_then (Inr x) f = f x"
  by (simp add: and_then_def)

lemma and_then_Inl [simp]: "and_then (Inl e) f = Inl e"
  by (simp add: and_then_def)

lemma normalizeNumber_digits:
  "0 \<le> p \<Longrightarrow> p \<le> 100 \<Longrightarrow>
   normalizeNumber fl v p = Inr (parseFloat fl (toFixed_digits (parseFloat fl v) (nat p)))"
  by (simp add: normalizeNumber_def toFixed_def)

section \<open>Rounding to the nearest double\<close>

lemma round_half_even_near: "\<bar>of_int (round_half_even q) - q\<bar> \<le> 1 / 2"
  unfolding round_half_even_def Let_def by (auto simp: abs_if) linarith+

lemma round_half_even_nearest: "\<bar>of_int (round_half_even q) - q\<bar> \<le> \<bar>of_int k - q\<bar>"
proof (cases "of_int k = (of_int (round_half_even q) :: real)")
  case True then show ?thesis by simp
next
  case False
  then have "k \<noteq> round_half_even q" by auto
  then have "\<bar>k - round_half_even q\<bar> \<ge> 1" by linarith
  then have "\<bar>of_int k - (of_int (round_half_even q) :: real)\<bar> \<ge> 1"
    by (metis of_int_1 of_int_abs of_int_diff of_int_le_iff)
  with round_half_even_near[of q] show ?thesis by linarith
qed

lemma round_half_even_of_int [simp]: "round_half_even (of_int n) = n"
  unfolding round_half_even_def Let_def by simp

lemma nearest64_expo:
  "x \<noteq> 0 \<Longrightarrow>
   nearest64 x = of_int (round_half_even (x / 2 powr of_int (expo64 x))) * 2 powr of_int (expo64 x)"
  by (simp add: nearest64_def)

lemma nearest64_multiple:
  assumes "x \<noteq> 0"
  shows "\<bar>nearest64 x - x\<bar> \<le> \<bar>of_int k * 2 powr of_int (expo64 x) - x\<bar>"
proof -
  define s :: real where "s = 2 powr of_int (expo64 x)"
  have s: "0 < s" by (simp add: s_def)
  define q where "q = x / s"
  have x: "x = q * s" using s by (simp add: q_def)
  have "nearest64 x - x = (of_int (round_half_even q) - q) * s"
    using assms s by (simp add: nearest64_expo s_def[symmetric] q_def algebra_simps)
  moreover have "of_int k * s - x = (of_int k - q) * s"
    using s by (simp add: q_def algebra_simps)
  ultimately show ?thesis
    using round_half_even_nearest[of q k] s
    by (simp add: s_def[symmetric] abs_mult mult_right_mono)
qed

lemma log2_bounds:
  assumes "x \<noteq> 0"
  shows "2 powr of_int \<lfloor>log 2 \<bar>x\<bar>\<rfloor> \<le> \<bar>x\<bar>" "\<bar>x\<bar> < 2 powr of_int (\<lfloor>log 2 \<bar>x\<bar>\<rfloor> + 1)"
  using floor_log_eq_powr_iff[of "\<bar>x\<bar>" 2 "\<lfloor>log 2 \<bar>x\<bar>\<rfloor>"] assms by auto

lemma p2_add: "(2::real) powr of_int (a + b) = 2 powr of_int a * 2 powr of_int b"
  by (simp add: powr_add)

lemma p2_nat: "(2::real) powr of_int (int n) = 2 ^ n"
  by (simp add: powr_realpow)

lemma p2_pos: "0 < (2::real) powr of_int e"
  by simp

lemma p2_mono: "a \<le> b \<Longrightarrow> (2::real) powr of_int a \<le> 2 powr of_int b"
  by (simp add: powr_mono)

lemma powr_int_multiple:
  assumes "e \<le> e'"
  shows "\<exists>k. of_int m * (2::real) powr of_int e' = of_int k * 2 powr of_int (e::int)"
proof -
  have "(2::real) powr of_int e' = 2 powr of_int (e' - e) * 2 powr of_int e"
    using p2_add[of "e' - e" e] by simp
  also have "2 powr of_int (e' - e) = (2::real) ^ nat (e' - e)"
    using assms p2_nat[of "nat (e' - e)"] by simp
  finally have "of_int m * (2::real) powr of_int e' = of_int (m * 2 ^ nat (e' - e)) * 2 powr of_int e"
    by simp
  then show ?thesis by blast
qed

lemma nearest64_nearest:
  assumes m: "\<bar>m\<bar> < (2::int) ^ 53" and e': "- 1074 \<le> e'"
  shows "\<bar>nearest64 x - x\<bar> \<le> \<bar>of_int m * 2 powr of_int e' - x\<bar>"
proof (cases "x = 0")
  case True then show ?thesis by (simp add: nearest64_def)
next
  case False
  define L where "L = \<lfloor>log 2 \<bar>x\<bar>\<rfloor>"
  define e where "e = expo64 x"
  define z :: real where "z = of_int m * 2 powr of_int e'"
  have e_def': "e = max (L - 52) (- 1074)" by (simp add: e_def expo64_def L_def)
  show ?thesis
  proof (cases "e \<le> e'")
    case True
    from powr_int_multiple[OF True, of m] obtain k where "z = of_int k * 2 powr of_int e"
      by (auto simp: z_def)
    then show ?thesis using nearest64_multiple[OF False, of k] by (simp add: z_def e_def)
  next
    case lt: False
    then have eL: "e = L - 52" and e'le: "e' \<le> e - 1" using e' e_def' by auto
    have "\<bar>z\<bar> = of_int \<bar>m\<bar> * 2 powr of_int e'" by (simp add: z_def abs_mult)
    also have "\<dots> \<le> 2 ^ 53 * 2 powr of_int e'"
    proof -
      have "(of_int \<bar>m\<bar> :: real) \<le> of_int (2 ^ 53)" using m by (intro of_int_le_iff[THEN iffD2]) simp
      then show ?thesis by (simp add: mult_right_mono)
    qed
    also have "\<dots> = 2 powr of_int (53 + e')"
      using p2_add[of 53 e'] p2_nat[of 53] by simp
    also have "\<dots> \<le> 2 powr of_int L"
      using e'le eL by (intro powr_mono) auto
    finally have zL: "\<bar>z\<bar> \<le> 2 powr of_int L" .
    have xL: "2 powr of_int L \<le> \<bar>x\<bar>" using log2_bounds(1)[OF False] by (simp add: L_def)
    define w where "w = sgn x * 2 powr of_int L"
    have "(2::real) powr of_int L = 2 ^ 52 * 2 powr of_int e"
      using p2_add[of 52 e] p2_nat[of 52] by (simp add: eL)
    then have "w = of_int (if 0 < x then 2 ^ 52 else - (2 ^ 52)) * 2 powr of_int e"
      using False by (simp add: w_def sgn_if)
    then have "\<bar>nearest64 x - x\<bar> \<le> \<bar>w - x\<bar>"
      using nearest64_multiple[OF False, of "if 0 < x then 2 ^ 52 else - (2 ^ 52)"] by (simp add: e_def)
    also have "\<bar>w - x\<bar> = \<bar>x\<bar> - 2 powr of_int L"
      using xL False by (auto simp: w_def sgn_if abs_if)
    also have "\<dots> \<le> \<bar>z - x\<bar>" using zL by linarith
    finally show ?thesis by (simp add: z_def)
  qed
qed

lemma round_half_even_floor: "round_half_even q = \<lfloor>q\<rfloor> \<or> round_half_even q = \<lfloor>q\<rfloor> + 1"
  unfolding round_half_even_def Let_def by auto

lemma round_half_even_bound:
  assumes "\<bar>q\<bar> < of_int N"
  shows "\<bar>round_half_even q\<bar> \<le> N"
proof -
  have "\<lfloor>q\<rfloor> < N" using assms by (simp add: floor_less_iff abs_less_iff)
  moreover have "- N \<le> \<lfloor>q\<rfloor>" using assms by (simp add: le_floor_iff abs_less_iff)
  ultimately show ?thesis using round_half_even_floor[of q] by linarith
qed

lemma nearest64_shape:
  "\<exists>m e. \<bar>m\<bar> < (2 :: int) ^ 53 \<and> (- 1074 :: int) \<le> e \<and> nearest64 x = of_int m * 2 powr of_int e"
proof (cases "x = 0")
  case True
  have "nearest64 x = of_int 0 * 2 powr of_int 0" using True by (simp add: nearest64_def)
  then show ?thesis by (intro exI[of _ 0] exI[of _ 0]) simp
next
  case False
  define e where "e = expo64 x"
  define q where "q = x / 2 powr of_int e"
  define m where "m = round_half_even q"
  have e_ge: "- 1074 \<le> e" by (simp add: e_def expo64_def)
  have y: "nearest64 x = of_int m * 2 powr of_int e"
    using False by (simp add: nearest64_expo m_def q_def e_def)
  have "\<lfloor>log 2 \<bar>x\<bar>\<rfloor> + 1 \<le> 53 + e" by (simp add: e_def expo64_def)
  then have "\<bar>x\<bar> < 2 powr of_int (53 + e)"
    using log2_bounds(2)[OF False] p2_mono[of "\<lfloor>log 2 \<bar>x\<bar>\<rfloor> + 1" "53 + e"] by linarith
  also have "\<dots> = 2 ^ 53 * 2 powr of_int e" using p2_add[of 53 e] p2_nat[of 53] by simp
  finally have "\<bar>q\<bar> < 2 ^ 53"
    using p2_pos[of e] by (simp add: q_def abs_divide divide_less_eq)
  then have "\<bar>q\<bar> < of_int (2 ^ 53)" by simp
  then have mb: "\<bar>m\<bar> \<le> 2 ^ 53" unfolding m_def by (rule round_half_even_bound)
  show ?thesis
  proof (cases "\<bar>m\<bar> = 2 ^ 53")
    case False
    then have "\<bar>m\<bar> < 2 ^ 53" using mb by linarith
    then show ?thesis using e_ge y by blast
  next
    case True
    define m' where "m' = (if 0 < m then (2::int) ^ 52 else - (2 ^ 52))"
    have mm: "m = 2 * m'" using True by (auto simp: m'_def abs_if split: if_splits)
    have "(2::real) powr of_int (e + 1) = 2 * 2 powr of_int e"
      using p2_add[of 1 e] p2_nat[of 1] by (simp add: add.commute)
    then have "nearest64 x = of_int m' * 2 powr of_int (e + 1)" by (simp add: y mm)
    moreover have "\<bar>m'\<bar> < 2 ^ 53" by (simp add: m'_def)
    moreover have "- 1074 \<le> e + 1" using e_ge by simp
    ultimately show ?thesis by blast
  qed
qed

lemma nearest64_double: "is_double z \<Longrightarrow> nearest64 z = z"
  unfolding is_double_def using nearest64_nearest[of _ _ z] by fastforce

lemma zero_shape: "(0::real) = of_int 0 * 2 powr of_int 0" by simp

lemma nearest64_abs_le: "\<bar>nearest64 x\<bar> \<le> 2 * \<bar>x\<bar>"
proof -
  have "\<bar>nearest64 x - x\<bar> \<le> \<bar>of_int 0 * 2 powr of_int 0 - x\<bar>"
    by (rule nearest64_nearest) simp_all
  then show ?thesis by simp
qed

lemma binary64_Fin: "\<bar>nearest64 x\<bar> < 2 ^ 1024 \<Longrightarrow> binary64 x = Fin (nearest64 x)"
  by (auto simp: binary64_def Let_def)

lemma binary64_double: "is_double z \<Longrightarrow> binary64 z = Fin z"
  using binary64_Fin[of z] by (simp add: nearest64_double) (simp add: is_double_def)

lemma binary64_cases:
  "binary64 r = PosInf \<or> binary64 r = NegInf \<or> (binary64 r = Fin (nearest64 r) \<and> is_double (nearest64 r))"
proof (cases "\<bar>nearest64 r\<bar> < 2 ^ 1024")
  case True
  then show ?thesis using binary64_Fin[OF True] nearest64_shape[of r] by (simp add: is_double_def)
next
  case False
  then show ?thesis by (auto simp: binary64_def Let_def)
qed

lemma p2_neg_nat: "(2::real) powr of_int (- int k) = 1 / 2 ^ k"
proof -
  have "(2::real) powr of_int (- int k) * 2 powr of_int (int k) = 1"
    using p2_add[of "- int k" "int k"] by simp
  then show ?thesis using p2_nat[of k] by (simp add: field_simps)
qed

lemma nearest64_scaled:
  assumes lo: "2 ^ 52 \<le> \<bar>x\<bar> * 2 ^ k" and hi: "\<bar>x\<bar> * 2 ^ k < 2 ^ 53" and k: "k \<le> 1074"
  shows "nearest64 x = of_int (round_half_even (x * 2 ^ k)) / 2 ^ k"
proof -
  have x: "x \<noteq> 0" using lo by auto
  have a: "(2::real) powr of_int (52 - int k) = 2 ^ 52 / 2 ^ k"
    using p2_add[of 52 "- int k"] p2_nat[of 52] p2_neg_nat[of k] by simp
  have b: "(2::real) powr of_int (52 - int k + 1) = 2 ^ 53 / 2 ^ k"
    using p2_add[of 53 "- int k"] p2_nat[of 53] p2_neg_nat[of k] by (simp add: algebra_simps)
  have "2 powr of_int (52 - int k) \<le> \<bar>x\<bar>" unfolding a using lo by (simp add: field_simps)
  moreover have "\<bar>x\<bar> < 2 powr of_int (52 - int k + 1)" unfolding b using hi by (simp add: field_simps)
  ultimately have "\<lfloor>log 2 \<bar>x\<bar>\<rfloor> = 52 - int k"
    using floor_log_eq_powr_iff[of "\<bar>x\<bar>" 2 "52 - int k"] x by simp
  then have "expo64 x = - int k" using k by (simp add: expo64_def)
  moreover have "(2::real) powr (- real k) = 1 / 2 ^ k"
    by (simp add: powr_minus powr_realpow inverse_eq_divide)
  ultimately show ?thesis using x by (simp add: nearest64_expo)
qed

lemma binary64_scaled:
  assumes lo: "2 ^ 52 \<le> \<bar>x\<bar> * 2 ^ k" and hi: "\<bar>x\<bar> * 2 ^ k < 2 ^ 53" and k: "k \<le> 1074"
  shows "binary64 x = Fin (of_int (round_half_even (x * 2 ^ k)) / 2 ^ k)"
proof -
  have "\<bar>x\<bar> * 1 \<le> \<bar>x\<bar> * 2 ^ k" by (intro mult_left_mono) simp_all
  then have "\<bar>x\<bar> < 2 ^ 53" using hi by simp
  then have "\<bar>nearest64 x\<bar> < 2 * 2 ^ 53" using nearest64_abs_le[of x] by linarith
  also have "\<dots> \<le> (2::real) ^ 1024" by simp
  finally show ?thesis using binary64_Fin nearest64_scaled[OF assms] by simp
qed

lemma binary64_0: "binary64 0 = Fin 0"
  by (simp add: binary64_def nearest64_def)

lemmas binary64_eval =
  binary64_0
  binary64_scaled[of _ 40, simplified] binary64_scaled[of _ 41, simplified]
  binary64_scaled[of _ 42, simplified] binary64_scaled[of _ 43, simplified]
  binary64_scaled[of _ 44, simplified] binary64_scaled[of _ 45, simplified]
  binary64_scaled[of _ 46, simplified] binary64_scaled[of _ 47, simplified]
  binary64_scaled[of _ 48, simplified] binary64_scaled[of _ 49, simplified]
  binary64_scaled[of _ 50, simplified] binary64_scaled[of _ 51, simplified]
  binary64_scaled[of _ 52, simplified] binary64_scaled[of _ 53, simplified]
  binary64_scaled[of _ 54, simplified] binary64_scaled[of _ 55, simplified]
  binary64_scaled[of _ 56, simplified] binary64_scaled[of _ 57, simplified]
  binary64_scaled[of _ 58, simplified] binary64_scaled[of _ 59, simplified]
  binary64_scaled[of _ 60, simplified] binary64_scaled[of _ 61, simplified]
  binary64_scaled[of _ 62, simplified]

section \<open>The digits of \<open>toFixed\<close>\<close>

lemma fixed_digits_int: "fixed_digits x f = of_int (fixed_int x f) / 10 ^ f"
  by (simp add: fixed_digits_def)

lemma fixed_int_near: "\<bar>of_int (fixed_int x f) - x * 10 ^ f\<bar> \<le> 1 / 2"
  unfolding fixed_int_def by (auto simp: abs_if) linarith+

lemma fixed_int_unique:
  assumes "\<bar>x * 10 ^ f - of_int k\<bar> < 1 / 2"
  shows "fixed_int x f = k"
  using assms unfolding fixed_int_def by (auto simp: abs_if split: if_splits) linarith+

lemma fixed_digits_near: "\<bar>fixed_digits x f - x\<bar> \<le> 1 / (2 * 10 ^ f)"
proof -
  have "fixed_digits x f - x = (of_int (fixed_int x f) - x * 10 ^ f) / 10 ^ f"
    by (simp add: fixed_digits_int field_simps)
  then have "\<bar>fixed_digits x f - x\<bar> = \<bar>of_int (fixed_int x f) - x * 10 ^ f\<bar> / 10 ^ f"
    by (simp add: abs_divide)
  also have "\<dots> \<le> (1 / 2) / 10 ^ f"
    by (rule divide_right_mono[OF fixed_int_near]) simp
  finally show ?thesis by simp
qed

lemma fixed_digits_unique:
  assumes "\<bar>x - of_int k / 10 ^ f\<bar> < 1 / (2 * 10 ^ f)"
  shows "fixed_digits x f = of_int k / 10 ^ f"
proof -
  have "x * 10 ^ f - of_int k = (x - of_int k / 10 ^ f) * 10 ^ f" by (simp add: field_simps)
  then have "\<bar>x * 10 ^ f - of_int k\<bar> = \<bar>x - of_int k / 10 ^ f\<bar> * 10 ^ f"
    by (simp add: abs_mult)
  also have "\<dots> < 1 / (2 * 10 ^ f) * 10 ^ f"
    by (rule mult_strict_right_mono[OF assms]) simp
  finally have "\<bar>x * 10 ^ f - of_int k\<bar> < 1 / 2" by simp
  then show ?thesis by (simp add: fixed_digits_int fixed_int_unique)
qed

lemma fixed_digits_idem: "fixed_digits (fixed_digits x f) f = fixed_digits x f"
proof -
  have "fixed_digits (of_int (fixed_int x f) / 10 ^ f) f = of_int (fixed_int x f) / 10 ^ f"
    by (rule fixed_digits_unique) simp
  then show ?thesis by (simp add: fixed_digits_int[of x f])
qed

lemma shape_dyadic:
  assumes "z = of_int m * 2 powr of_int (e::int)"
  shows "\<exists>k j. z = of_int k / (2::real) ^ j"
proof (cases "0 \<le> e")
  case True
  then have "(2::real) powr of_int e = 2 ^ nat e" using p2_nat[of "nat e"] by simp
  then have "z = of_int (m * 2 ^ nat e) / 2 ^ 0" using assms by simp
  then show ?thesis by blast
next
  case False
  then have "(2::real) powr of_int (- e) = 2 ^ nat (- e)" using p2_nat[of "nat (- e)"] by simp
  moreover have "(2::real) powr of_int e * 2 powr of_int (- e) = 1"
    using p2_add[of e "- e"] by simp
  ultimately have "(2::real) powr of_int e = 1 / 2 ^ nat (- e)"
    by (simp add: field_simps)
  then have "z = of_int m / 2 ^ nat (- e)" using assms by simp
  then show ?thesis by blast
qed

lemma dyadic_diff:
  assumes "a = of_int k1 / (2::real) ^ j1" "b = of_int k2 / (2::real) ^ j2"
  shows "\<exists>k j. a - b = of_int k / (2::real) ^ j"
proof -
  have "a - b = of_int (k1 * 2 ^ j2 - k2 * 2 ^ j1) / 2 ^ (j1 + j2)"
    unfolding assms by (simp add: field_simps power_add)
  then show ?thesis by blast
qed

lemma dyadic_not_tenth:
  assumes "\<bar>of_int k / (2::real) ^ j\<bar> = 1 / 10 ^ p" "0 < p"
  shows False
proof -
  have "\<bar>of_int k / (2::real) ^ j\<bar> = of_int \<bar>k\<bar> / 2 ^ j" by (simp add: abs_divide)
  with assms(1) have "of_int \<bar>k\<bar> / (2::real) ^ j = 1 / 10 ^ p" by simp
  then have "of_int \<bar>k\<bar> * (10::real) ^ p = 2 ^ j"
    by (simp add: divide_simps)
  then have "of_int (\<bar>k\<bar> * 10 ^ p) = (of_int (2 ^ j) :: real)" by simp
  then have eq: "\<bar>k\<bar> * 10 ^ p = (2::int) ^ j" by (simp only: of_int_eq_iff)
  obtain n where n: "p = Suc n" using assms(2) by (cases p) auto
  have "(10::int) ^ p = 5 * (2 * 10 ^ n)" by (simp add: n)
  then have "(5::int) dvd 10 ^ p" by (metis dvd_triv_left)
  then have "(5::int) dvd \<bar>k\<bar> * 10 ^ p" by (rule dvd_mult)
  then have "(5::int) dvd 2 ^ j" using eq by simp
  moreover have "coprime (5::int) (2 ^ j)" by simp
  ultimately have "is_unit (5::int)" using coprime_common_divisor[of "5::int" "2 ^ j" 5] by simp
  then show False by simp
qed

lemma half_integer_small:
  fixes x0 :: real
  assumes x0: "x0 = of_int m0 * 2 powr of_int e0" "\<bar>m0\<bar> < (2::int) ^ 53"
    and half: "\<bar>x0 - of_int n\<bar> = 1 / 2"
  shows "\<bar>n\<bar> < 2 ^ 53"
proof -
  have neg: "e0 < 0"
  proof (rule ccontr)
    assume "\<not> e0 < 0"
    then have "(2::real) powr of_int e0 = 2 ^ nat e0" using p2_nat[of "nat e0"] by simp
    then have "x0 - of_int n = of_int (m0 * 2 ^ nat e0 - n)" using x0(1) by simp
    then have "\<bar>of_int (m0 * 2 ^ nat e0 - n) :: real\<bar> = 1 / 2" using half by simp
    then have "(of_int \<bar>m0 * 2 ^ nat e0 - n\<bar> :: real) = 1 / 2" by simp
    then have "(of_int (2 * \<bar>m0 * 2 ^ nat e0 - n\<bar>) :: real) = of_int 1" by simp
    then have "2 * \<bar>m0 * 2 ^ nat e0 - n\<bar> = 1" by (simp only: of_int_eq_iff)
    then show False by presburger
  qed
  then have "(2::real) powr of_int e0 \<le> 2 powr of_int (- 1)" by (intro p2_mono) simp
  also have "(2::real) powr of_int (- 1) = 1 / 2"
    using p2_add[of 1 "- 1"] p2_nat[of 1] by simp
  finally have p2: "(2::real) powr of_int e0 \<le> 1 / 2" .
  have ax: "\<bar>x0\<bar> = of_int \<bar>m0\<bar> * 2 powr of_int e0" by (simp add: x0(1) abs_mult)
  have mb: "(of_int \<bar>m0\<bar> :: real) \<le> 2 ^ 53"
  proof -
    have "(of_int \<bar>m0\<bar> :: real) \<le> of_int (2 ^ 53)" using x0(2) by (intro of_int_le_iff[THEN iffD2]) simp
    then show ?thesis by simp
  qed
  have "of_int \<bar>m0\<bar> * (2::real) powr of_int e0 \<le> 2 ^ 53 * (1 / 2)"
    by (rule mult_mono[OF mb p2]) simp_all
  then have "\<bar>x0\<bar> \<le> 2 ^ 53 * (1 / 2)" by (simp only: ax)
  then have "\<bar>x0\<bar> \<le> 2 ^ 52" by simp
  then have "\<bar>of_int n :: real\<bar> \<le> 2 ^ 52 + 1 / 2" using half by linarith
  then have "(of_int \<bar>n\<bar> :: real) < of_int (2 ^ 53)" by simp
  then show ?thesis by (simp only: of_int_less_iff)
qed

lemma renormalize64:
  fixes x0 :: real
  assumes x0: "x0 = of_int m0 * 2 powr of_int e0" "\<bar>m0\<bar> < (2::int) ^ 53" "- 1074 \<le> e0"
  shows "nearest64 (fixed_digits (nearest64 (fixed_digits x0 p)) p) = nearest64 (fixed_digits x0 p)"
proof -
  define n where "n = fixed_int x0 p"
  define h where "h = fixed_digits x0 p"
  define d where "d = nearest64 h"
  define g :: real where "g = 1 / (2 * 10 ^ p)"
  have h: "h = of_int n / 10 ^ p" by (simp add: h_def n_def fixed_digits_int)
  have xh: "\<bar>x0 - h\<bar> \<le> g" using fixed_digits_near[of x0 p] by (simp add: h_def g_def abs_minus_commute)
  have dh: "\<bar>d - h\<bar> \<le> \<bar>x0 - h\<bar>"
    unfolding d_def x0(1) by (rule nearest64_nearest[OF x0(2,3)])
  have goal_if: "fixed_digits d p = h \<Longrightarrow> ?thesis" by (simp add: d_def h_def)
  show ?thesis
  proof (cases "d = x0")
    case True
    then show ?thesis using goal_if by (simp add: h_def)
  next
    case dx: False
    show ?thesis
    proof (cases "\<bar>d - h\<bar> < g")
      case True
      then have "fixed_digits d p = of_int n / 10 ^ p"
        by (intro fixed_digits_unique) (simp add: h g_def)
      then show ?thesis using goal_if h by simp
    next
      case False
      then have eqs: "\<bar>d - h\<bar> = g" "\<bar>x0 - h\<bar> = g" using dh xh by linarith+
      then have diff: "\<bar>d - x0\<bar> = 2 * g" using dx by (auto simp: abs_if split: if_splits)
      obtain m1 e1 where d_shape: "\<bar>m1\<bar> < (2 :: int) ^ 53" "(- 1074 :: int) \<le> e1"
        "d = of_int m1 * 2 powr of_int e1"
        using nearest64_shape[of h] by (auto simp: d_def)
      show ?thesis
      proof (cases "p = 0")
        case False
        obtain k1 j1 where "d = of_int k1 / (2::real) ^ j1" using shape_dyadic[OF d_shape(3)] by blast
        moreover obtain k2 j2 where "x0 = of_int k2 / (2::real) ^ j2" using shape_dyadic[OF x0(1)] by blast
        ultimately obtain k j where "d - x0 = of_int k / (2::real) ^ j" using dyadic_diff by blast
        then have "\<bar>of_int k / (2::real) ^ j\<bar> = 1 / 10 ^ p" using diff by (simp add: g_def)
        then have False using dyadic_not_tenth False by blast
        then show ?thesis ..
      next
        case True
        have hn: "h = of_int n" using h True by simp
        have "\<bar>x0 - of_int n\<bar> = 1 / 2" using eqs(2) hn True by (simp add: g_def)
        then have "\<bar>n\<bar> < 2 ^ 53" using half_integer_small[OF x0(1,2)] by blast
        moreover have "(of_int n :: real) = of_int n * 2 powr of_int 0" by simp
        ultimately have "\<bar>nearest64 (of_int n) - of_int n\<bar> \<le> \<bar>of_int n * 2 powr of_int 0 - of_int n\<bar>"
          by (intro nearest64_nearest) simp_all
        then have "d = h" by (simp add: d_def hn)
        then have False using eqs(1) True by (simp add: g_def)
        then show ?thesis ..
      qed
    qed
  qed
qed

section \<open>Normalising twice\<close>

lemma parseFloat_exact [simp]: "parseFloat exact v = v"
  by (cases v) (simp_all add: exact_def)

lemma normalized_idem: "normalized (normalized x f) f = normalized x f"
  by (simp add: normalized_def fixed_digits_idem)

lemma toFixed_digits_idem: "toFixed_digits (toFixed_digits v f) f = toFixed_digits v f"
  by (cases v) (simp_all add: normalized_idem)

lemma is_double_nearest64: "\<bar>nearest64 x\<bar> < 2 ^ 1024 \<Longrightarrow> is_double (nearest64 x)"
  using nearest64_shape[of x] by (simp add: is_double_def)

lemma fixed_digits_abs_le: "\<bar>fixed_digits x f\<bar> \<le> \<bar>x\<bar> + 1"
proof -
  have "(1::real) \<le> 10 ^ f" by simp
  then have "(1::real) \<le> 2 * 10 ^ f" by linarith
  then have "1 / (2 * 10 ^ f) \<le> (1::real)" by (simp add: field_simps)
  moreover have "\<bar>fixed_digits x f\<bar> \<le> \<bar>x\<bar> + \<bar>fixed_digits x f - x\<bar>" by simp
  ultimately show ?thesis using fixed_digits_near[of x f] by linarith
qed

lemma binary64_fixed_digits:
  assumes "\<bar>x\<bar> < 10 ^ 21"
  shows "binary64 (fixed_digits x f) = Fin (nearest64 (fixed_digits x f))"
    and "is_double (nearest64 (fixed_digits x f))"
proof -
  have "2 * \<bar>fixed_digits x f\<bar> \<le> 2 * (\<bar>x\<bar> + 1)"
    using fixed_digits_abs_le[of x f] by simp
  then have "\<bar>nearest64 (fixed_digits x f)\<bar> \<le> 2 * (\<bar>x\<bar> + 1)"
    using nearest64_abs_le[of "fixed_digits x f"] by (rule order_trans[rotated])
  also have "\<dots> < 2 * (10 ^ 21 + 1)" using assms by simp
  also have "\<dots> \<le> (2::real) ^ 1024" by simp
  finally have b: "\<bar>nearest64 (fixed_digits x f)\<bar> < 2 ^ 1024" .
  show "binary64 (fixed_digits x f) = Fin (nearest64 (fixed_digits x f))"
    by (rule binary64_Fin[OF b])
  show "is_double (nearest64 (fixed_digits x f))" by (rule is_double_nearest64[OF b])
qed

lemma normalize64_double:
  assumes d: "is_double x0"
  shows "\<exists>d. parseFloat binary64 (toFixed_digits (Fin x0) f) = Fin d \<and> is_double d
           \<and> parseFloat binary64 (toFixed_digits (Fin d) f) = Fin d"
proof (cases "10 ^ 21 \<le> \<bar>x0\<bar>")
  case True
  then show ?thesis using d by (auto simp: binary64_double normalized_def)
next
  case False
  define d where "d = nearest64 (fixed_digits x0 f)"
  have x: "\<bar>x0\<bar> < 10 ^ 21" using False by simp
  have bd: "binary64 (fixed_digits x0 f) = Fin d" "is_double d"
    using binary64_fixed_digits[OF x, of f] by (simp_all add: d_def)
  obtain m0 e0 where s: "\<bar>m0\<bar> < (2 :: int) ^ 53" "(- 1074 :: int) \<le> e0"
      "x0 = of_int m0 * 2 powr of_int e0"
    using assms by (auto simp: is_double_def)
  have re: "nearest64 (fixed_digits d f) = d"
    unfolding d_def by (rule renormalize64[OF s(3) s(1) s(2)])
  have "parseFloat binary64 (toFixed_digits (Fin d) f) = Fin d"
  proof (cases "10 ^ 21 \<le> \<bar>d\<bar>")
    case True
    then show ?thesis using bd(2) by (simp add: binary64_double normalized_def)
  next
    case False
    have "\<bar>nearest64 (fixed_digits d f)\<bar> < 2 ^ 1024" using bd(2) re by (simp add: is_double_def)
    then show ?thesis using False binary64_Fin[of "fixed_digits d f"] re
      by (simp add: normalized_def)
  qed
  then show ?thesis using bd x by (auto simp: normalized_def)
qed

lemma normalize64_idem:
  "parseFloat binary64 (toFixed_digits (parseFloat binary64
      (parseFloat binary64 (toFixed_digits (parseFloat binary64 v) f))) f)
   = parseFloat binary64 (toFixed_digits (parseFloat binary64 v) f)"
proof (cases v)
  case (Fin r)
  consider "binary64 r = PosInf" | "binary64 r = NegInf"
    | "binary64 r = Fin (nearest64 r)" "is_double (nearest64 r)"
    using binary64_cases[of r] by blast
  then show ?thesis
  proof cases
    case 3
    obtain d where d: "parseFloat binary64 (toFixed_digits (Fin (nearest64 r)) f) = Fin d"
        "is_double d" "parseFloat binary64 (toFixed_digits (Fin d) f) = Fin d"
      using normalize64_double[OF 3(2), of f] by blast
    then show ?thesis using 3 Fin by (simp add: binary64_double)
  qed (simp_all add: Fin)
qed simp_all

section \<open>Evaluating the calculators\<close>

lemmas eval_simps =
  normalizeNumber_digits binary64_eval round_half_even_def normalized_def fixed_digits_def
  fixed_int_def exact_def gt_def sub_def Let_def

section \<open>The volumetric calculator\<close>

text \<open>
  C2. With layer height 0.2, nozzle diameter 0.4 and print speed 60, the calculator asked
  for the volumetric speed shows exactly 4.8 and no alert; with the volumetric speed 4.8
  fed back, the same layer height and nozzle, and the other option checked, it shows the
  print speed 60 exactly and no alert. This holds in exact arithmetic and in doubles, where
  4.8 is the double that the text \<^verbatim>\<open>4.8\<close> denotes.
\<close>

theorem volumetric_round_trip:
  assumes "other \<noteq> ''volumetricSpeed''"
  shows "calculateVolumetric exact
      \<lparr>layerHeight_text = Fin (2 / 10), nozzleDiameter_checked = Some (Fin (4 / 10)),
       calculationOption_checked = Some ''volumetricSpeed'', printSpeed_text = Fin 60,
       volumetricSpeed_text = absent\<rparr>
    = Inr \<lparr>alertMessage = [],
          result_text = Some (VolumetricSpeedCalculated (Fin (48 / 10)))\<rparr>
    \<and> calculateVolumetric exact
      \<lparr>layerHeight_text = Fin (2 / 10), nozzleDiameter_checked = Some (Fin (4 / 10)),
       calculationOption_checked = Some other, printSpeed_text = absent,
       volumetricSpeed_text = Fin (48 / 10)\<rparr>
    = Inr \<lparr>alertMessage = [], result_text = Some (PrintSpeedCalculated (Fin 60))\<rparr>
    \<and> calculateVolumetric binary64
      \<lparr>layerHeight_text = Fin (2 / 10), nozzleDiameter_checked = Some (Fin (4 / 10)),
       calculationOption_checked = Some ''volumetricSpeed'', printSpeed_text = Fin 60,
       volumetricSpeed_text = absent\<rparr>
    = Inr \<lparr>alertMessage = [],
          result_text = Some (VolumetricSpeedCalculated (binary64 (48 / 10)))\<rparr>
    \<and> calculateVolumetric binary64
      \<lparr>layerHeight_text = Fin (2 / 10), nozzleDiameter_checked = Some (Fin (4 / 10)),
       calculationOption_checked = Some other, printSpeed_text = absent,
       volumetricSpeed_text = Fin (48 / 10)\<rparr>
    = Inr \<lparr>alertMessage = [], result_text = Some (PrintSpeedCalculated (Fin 60))\<rparr>"
  using assms by (simp add: calculateVolumetric_def eval_simps)

theorem volumetric_round_trip_witness:
  "calculateVolumetric binary64
      \<lparr>layerHeight_text = Fin (2 / 10), nozzleDiameter_checked = Some (Fin (4 / 10)),
       calculationOption_checked = Some ''printSpeed'', printSpeed_text = NaN,
       volumetricSpeed_text = Fin (48 / 10)\<rparr>
    = Inr \<lparr>alertMessage = [], result_text = Some (PrintSpeedCalculated (Fin 60))\<rparr>"
  using volumetric_round_trip [where other = "''printSpeed''" and absent = NaN] by simp

section \<open>The normaliser\<close>

text \<open>
  C8. Normalisation is idempotent: normalising the result of \<open>normalizeNumber x p\<close> again with
  the same \<open>p\<close> gives that result, for every text or number \<open>x\<close> and every \<open>p\<close>, in exact
  arithmetic and in doubles. Where \<^verbatim>\<open>toFixed\<close> rejects \<open>p\<close>, both sides raise the same error.
\<close>

theorem normalizeNumber_idempotent:
  "and_then (normalizeNumber exact x p) (\<lambda>y. normalizeNumber exact y p) = normalizeNumber exact x p
   \<and> and_then (normalizeNumber binary64 x p) (\<lambda>y. normalizeNumber binary64 y p)
       = normalizeNumber binary64 x p"
proof (cases "0 \<le> p \<and> p \<le> 100")
  case True
  then show ?thesis by (simp add: normalizeNumber_digits toFixed_digits_idem normalize64_idem)
next
  case False
  then show ?thesis by (auto simp: normalizeNumber_def toFixed_def)
qed

theorem normalizeNumber_idempotent_witness:
  "and_then (normalizeNumber binary64 (Fin (1 / 8)) 2) (\<lambda>y. normalizeNumber binary64 y 2)
     = Inr (binary64 (13 / 100))"
  using normalizeNumber_idempotent [of "Fin (1 / 8)" 2] by (simp add: eval_simps)

section \<open>The flow calculator\<close>

lemma wall_texts_list:
  "wall_texts wall =
     [wall 1 1, wall 1 2, wall 1 3, wall 1 4, wall 1 5,
      wall 2 1, wall 2 2, wall 2 3, wall 2 4, wall 2 5,
      wall 3 1, wall 3 2, wall 3 3, wall 3 4, wall 3 5,
      wall 4 1, wall 4 2, wall 4 3, wall 4 4, wall 4 5]"
  unfolding wall_texts_def by (simp add: upt_rec) (simp add: numeral_eq_Suc)

lemma normalizeNumber_NaN: "normalizeNumber fl NaN 2 = Inr NaN"
  by (simp add: normalizeNumber_digits)

lemma push_measurements_bound:
  "\<exists>ms. push_measurements fl texts = Inr ms
        \<and> length ms \<le> length (filter (\<lambda>v. \<not> isNaN v) texts)"
proof (induction texts)
  case Nil
  then show ?case by simp
next
  case (Cons t texts)
  then obtain ms where ms: "push_measurements fl texts = Inr ms"
      "length ms \<le> length (filter (\<lambda>v. \<not> isNaN v) texts)" by blast
  show ?case
  proof (cases t)
    case NaN
    then show ?thesis using ms by (simp add: normalizeNumber_digits)
  qed (use ms in \<open>simp_all add: normalizeNumber_digits\<close>)
qed

text \<open>
  C6. Whenever fewer than 20 of the wall fields hold a number, the flow calculator shows
  the request to fill in all 20 measurements and nothing else; it recommends a flow only
  when every one of the 20 fields holds a number. This holds for every rounding.
\<close>

theorem incomplete_measurements_fail:
  "(length (filter (\<lambda>v. \<not> isNaN v) (wall_texts wall)) < 20
      \<longrightarrow> calculateNewFlow fl wall width flow = Inr FillAllMeasurements)
   \<and> (calculateNewFlow fl wall width flow = Inr (NewFlowRecommended newFlow)
      \<longrightarrow> (\<forall>v \<in> set (wall_texts wall). \<not> isNaN v))"
proof -
  obtain ms where ms: "push_measurements fl (wall_texts wall) = Inr ms"
      "length ms \<le> length (filter (\<lambda>v. \<not> isNaN v) (wall_texts wall))"
    using push_measurements_bound by blast
  have len: "length (wall_texts wall) = 20" by (simp add: wall_texts_list)
  have a: "length (filter (\<lambda>v. \<not> isNaN v) (wall_texts wall)) < 20
      \<Longrightarrow> calculateNewFlow fl wall width flow = Inr FillAllMeasurements"
    using ms by (simp add: calculateNewFlow_def)
  have b: "length (filter (\<lambda>v. \<not> isNaN v) (wall_texts wall)) < 20"
    if "v \<in> set (wall_texts wall)" "isNaN v" for v
    using length_filter_less[of v "wall_texts wall" "\<lambda>v. \<not> isNaN v"] that len by simp
  show ?thesis
  proof (intro conjI impI ballI)
    assume "length (filter (\<lambda>v. \<not> isNaN v) (wall_texts wall)) < 20"
    then show "calculateNewFlow fl wall width flow = Inr FillAllMeasurements" by (rule a)
  next
    fix v
    assume r: "calculateNewFlow fl wall width flow = Inr (NewFlowRecommended newFlow)"
      and v: "v \<in> set (wall_texts wall)"
    show "\<not> isNaN v"
    proof
      assume "isNaN v"
      then have "calculateNewFlow fl wall width flow = Inr FillAllMeasurements"
        using a b v by blast
      then show False using r by simp
    qed
  qed
qed

theorem incomplete_measurements_fail_witness:
  "calculateNewFlow binary64 (\<lambda>i j. if i = 2 \<and> j = 3 then NaN else Fin (42 / 100))
      (Fin (4 / 10)) (Fin 100) = Inr FillAllMeasurements"
  using incomplete_measurements_fail
    [of "\<lambda>i j. if i = 2 \<and> j = 3 then NaN else Fin (42 / 100)" binary64 "Fin (4 / 10)" "Fin 100"]
  by (simp add: wall_texts_list)

lemma normalizeNumber_exact:
  "0 \<le> p \<Longrightarrow> p \<le> 100 \<Longrightarrow> normalizeNumber exact v p = Inr (toFixed_digits v (nat p))"
  by (simp add: normalizeNumber_digits)

lemma isNaN_toFixed_digits [simp]: "isNaN (toFixed_digits v f) = isNaN v"
  by (cases v) simp_all

lemma push_measurements_exact:
  "push_measurements exact texts
     = Inr (map (\<lambda>v. toFixed_digits v 2) (filter (\<lambda>v. \<not> isNaN v) texts))"
  by (induction texts) (simp_all add: normalizeNumber_exact)

lemma foldl_add_exact: "foldl (add exact) (Fin s) (map Fin ys) = Fin (s + sum_list ys)"
  by (induction ys arbitrary: s) (simp_all add: exact_def algebra_simps)

lemma add_exact_right_commute: "add exact (add exact a x) y = add exact (add exact a y) x"
  by (cases a; cases x; cases y) (simp_all add: exact_def)

lemma foldl_add_exact_mset:
  assumes "mset xs = mset ys"
  shows "foldl (add exact) a xs = foldl (add exact) a ys"
proof -
  have "fold (\<lambda>x acc. add exact acc x) xs = fold (\<lambda>x acc. add exact acc x) ys"
    by (rule fold_multiset_equiv[OF _ assms]) (auto simp: add_exact_right_commute)
  then show ?thesis by (simp add: foldl_conv_fold)
qed

lemma exact_order_irrelevant:
  assumes "mset (wall_texts wall) = mset (wall_texts wall')"
  shows "calculateNewFlow exact wall w f = calculateNewFlow exact wall' w f"
proof -
  define ms where "ms = map (\<lambda>v. toFixed_digits v 2) (filter (\<lambda>v. \<not> isNaN v) (wall_texts wall))"
  define ms' where "ms' = map (\<lambda>v. toFixed_digits v 2) (filter (\<lambda>v. \<not> isNaN v) (wall_texts wall'))"
  have m: "mset ms = mset ms'"
    unfolding ms_def ms'_def using assms by (metis mset_filter mset_map)
  then have l: "length ms = length ms'" by (rule mset_eq_length)
  have f: "foldl (add exact) (exact 0) ms = foldl (add exact) (exact 0) ms'"
    by (rule foldl_add_exact_mset[OF m])
  show ?thesis
    unfolding calculateNewFlow_def push_measurements_exact ms_def[symmetric] ms'_def[symmetric]
    by (simp add: l f Let_def)
qed

lemma length_wall_texts: "length (wall_texts wall) = 20"
  by (simp add: wall_texts_list)

text \<open>
  C9. In exact arithmetic the order of the measurements is irrelevant
  (\<open>exact_order_irrelevant\<close>). In doubles it is not: ten measurements of 0.40 followed by ten
  of 0.41 sum to the double below 8.1, whose twentieth rounds to 0.40, and the calculator
  shows 100; the same measurements with the ten of 0.41 first sum to a double above 8.1,
  whose twentieth rounds to 0.41, and the calculator shows 97.56.
\<close>

theorem flow_order_dependent:
  "mset (wall_texts wall_40_then_41) = mset (wall_texts wall_41_then_40)
   \<and> calculateNewFlow binary64 wall_40_then_41 (Fin (40 / 100)) (Fin 100)
       = Inr (NewFlowRecommended (binary64 100))
   \<and> calculateNewFlow binary64 wall_41_then_40 (Fin (40 / 100)) (Fin 100)
       = Inr (NewFlowRecommended (binary64 (9756 / 100)))
   \<and> binary64 100 \<noteq> binary64 (9756 / 100)"
  by (simp add: calculateNewFlow_def wall_texts_list wall_40_then_41_def wall_41_then_40_def
      eval_simps)

section \<open>Zero and missing inputs of the volumetric calculator\<close>

lemma normalizeNumber_result:
  "0 \<le> p \<Longrightarrow> p \<le> 100 \<Longrightarrow> \<exists>y. normalizeNumber fl v p = Inr y"
  by (simp add: normalizeNumber_digits)

lemma normalizeNumber_not_finite:
  "v = NaN \<or> v = PosInf \<or> v = NegInf \<Longrightarrow> normalizeNumber fl v 2 = Inr v"
  by (auto simp: normalizeNumber_digits)

lemma mul_zero_or_missing:
  assumes "fl 0 = Fin 0" "h = Fin 0 \<or> h = NaN \<or> d = Fin 0 \<or> d = NaN"
  shows "mul fl h d = Fin 0 \<or> mul fl h d = NaN"
  using assms by (cases h; cases d) auto

lemma divide_by_zero_or_missing:
  assumes "z = Fin 0 \<or> z = NaN"
  shows "divide_num fl q z = NaN \<or> divide_num fl q z = PosInf \<or> divide_num fl q z = NegInf"
  using assms by (cases q) (auto split: if_splits)

text \<open>
  C5, for a zero. When the option other than the volumetric speed is checked, the
  volumetric speed is a number, and the layer height and the nozzle diameter are both
  present, a layer height or a nozzle diameter that normalises to zero is no precondition
  failure: the calculator shows no advisory for a missing field (at most the proportion
  alert), goes on and shows a print speed, and that speed is \<open>NaN\<close> or an infinity and never
  a finite number. This holds for every rounding that keeps zero, so for doubles.
\<close>

theorem zero_height_or_nozzle_not_guarded:
  assumes other: "other \<noteq> ''volumetricSpeed''"
    and zero: "fl 0 = Fin 0"
    and h: "normalizeNumber fl h 2 = Inr layerHeight" "\<not> isNaN layerHeight"
    and d: "normalizeNumber fl d 1 = Inr nozzleDiameter" "\<not> isNaN nozzleDiameter"
    and q: "normalizeNumber fl q 2 = Inr volumetricSpeed" "\<not> isNaN volumetricSpeed"
    and a_zero: "layerHeight = Fin 0 \<or> nozzleDiameter = Fin 0"
  shows "\<exists>alerts speed.
      calculateVolumetric fl
        \<lparr>layerHeight_text = h, nozzleDiameter_checked = Some d,
         calculationOption_checked = Some other, printSpeed_text = absent,
         volumetricSpeed_text = q\<rparr>
      = Inr \<lparr>alertMessage = alerts, result_text = Some (PrintSpeedCalculated speed)\<rparr>
      \<and> (speed = NaN \<or> speed = PosInf \<or> speed = NegInf)
      \<and> set alerts \<subseteq> {HeightOutOfProportion}"
proof -
  define speed where
    "speed = divide_num fl volumetricSpeed (mul fl layerHeight nozzleDiameter)"
  have "mul fl layerHeight nozzleDiameter = Fin 0 \<or> mul fl layerHeight nozzleDiameter = NaN"
    using zero a_zero by (intro mul_zero_or_missing[of fl layerHeight nozzleDiameter]) auto
  then have s: "speed = NaN \<or> speed = PosInf \<or> speed = NegInf"
    unfolding speed_def by (rule divide_by_zero_or_missing)
  then have n: "normalizeNumber fl speed 2 = Inr speed" by (rule normalizeNumber_not_finite)
  obtain lo where lo: "normalizeNumber fl (mul fl nozzleDiameter (fl (1 / 5))) 2 = Inr lo"
    using normalizeNumber_result[of 2] by fastforce
  obtain hi where hi: "normalizeNumber fl (mul fl nozzleDiameter (fl (4 / 5))) 2 = Inr hi"
    using normalizeNumber_result[of 2] by fastforce
  show ?thesis
    using other q(2) s h(2) d(2)
    by (auto simp: calculateVolumetric_def h(1) d(1) q(1) lo hi n speed_def[symmetric] Let_def)
qed

theorem zero_height_or_nozzle_not_guarded_witness:
  "\<exists>alerts speed.
      calculateVolumetric binary64
        \<lparr>layerHeight_text = Fin 0, nozzleDiameter_checked = Some (Fin (4 / 10)),
         calculationOption_checked = Some ''printSpeed'', printSpeed_text = NaN,
         volumetricSpeed_text = Fin (48 / 10)\<rparr>
      = Inr \<lparr>alertMessage = alerts, result_text = Some (PrintSpeedCalculated speed)\<rparr>
      \<and> (speed = NaN \<or> speed = PosInf \<or> speed = NegInf)
      \<and> set alerts \<subseteq> {HeightOutOfProportion}"
  using zero_height_or_nozzle_not_guarded
    [of "''printSpeed''" binary64 "Fin 0" "Fin 0" "Fin (4 / 10)" "binary64 (4 / 10)"
        "Fin (48 / 10)" "binary64 (48 / 10)" NaN]
  by (simp add: eval_simps)

text \<open>
  C5 as stated fails: with layer height 0, nozzle 0.4 and volumetric speed 4.8 the page
  shows the proportion alert and the print speed \<open>Infinity\<close>: no check stops a zero. With the
  layer height missing it shows the advisory, which asks for the height in order to go on,
  and still the print speed \<open>NaN\<close>: these two checks lack the \<^verbatim>\<open>return\<close> that the check of
  the third field has.
\<close>

theorem zero_height_shows_infinity:
  "calculateVolumetric binary64
      \<lparr>layerHeight_text = Fin 0, nozzleDiameter_checked = Some (Fin (4 / 10)),
       calculationOption_checked = Some ''printSpeed'', printSpeed_text = NaN,
       volumetricSpeed_text = Fin (48 / 10)\<rparr>
    = Inr \<lparr>alertMessage = [HeightOutOfProportion],
          result_text = Some (PrintSpeedCalculated PosInf)\<rparr>
   \<and> calculateVolumetric binary64
      \<lparr>layerHeight_text = NaN, nozzleDiameter_checked = Some (Fin (4 / 10)),
       calculationOption_checked = Some ''printSpeed'', printSpeed_text = NaN,
       volumetricSpeed_text = Fin (48 / 10)\<rparr>
    = Inr \<lparr>alertMessage = [InformLayerHeight],
          result_text = Some (PrintSpeedCalculated NaN)\<rparr>"
  by (simp add: calculateVolumetric_def eval_simps)

section \<open>The range check of the layer-height calculator\<close>

lemma pbc_range_iff:
  "calculatePBC fl a (Some software) (Some nozzle) = Inr AngleOutOfRange
   \<longleftrightarrow> (\<exists>angle. normalizeNumber fl a 2 = Inr angle
          \<and> (isNaN angle \<or> lt angle (fl 1) \<or> gt angle (fl 89)))"
  by (simp add: calculatePBC_def normalizeNumber_digits Let_def)

lemma normalized_less_1: "normalized x 2 < 1 \<longleftrightarrow> x < 995 / 1000"
  unfolding normalized_def fixed_digits_def fixed_int_def
  by (auto simp: divide_less_eq floor_less_iff less_divide_eq) linarith+

lemma normalized_gt_89: "89 < normalized x 2 \<longleftrightarrow> 89005 / 1000 \<le> x"
  unfolding normalized_def fixed_digits_def fixed_int_def
  by (auto simp: less_divide_eq less_floor_iff divide_less_eq) linarith+

lemma pbc_range_exact:
  "calculatePBC exact (Fin x) (Some software) (Some nozzle) = Inr AngleOutOfRange
   \<longleftrightarrow> x < 995 / 1000 \<or> 89005 / 1000 \<le> x"
  by (simp add: pbc_range_iff normalizeNumber_digits gt_def exact_def normalized_less_1
      normalized_gt_89)

text \<open>
  C7, as the code has it. The layer-height calculator shows the range message exactly when
  the angle normalised to two decimals is \<open>NaN\<close>, below 1 or above 89; in exact arithmetic
  that is when the angle typed is below 0.995 or at least 89.005. A missing angle and the
  angles 0 and 90 are rejected whatever the software and the nozzle.
\<close>

theorem angle_range_check:
  "(calculatePBC fl a (Some software) (Some nozzle) = Inr AngleOutOfRange
     \<longleftrightarrow> (\<exists>angle. normalizeNumber fl a 2 = Inr angle
            \<and> (isNaN angle \<or> lt angle (fl 1) \<or> gt angle (fl 89))))
   \<and> (calculatePBC exact (Fin x) (Some software) (Some nozzle) = Inr AngleOutOfRange
     \<longleftrightarrow> x < 995 / 1000 \<or> 89005 / 1000 \<le> x)
   \<and> calculatePBC fl NaN (Some software) (Some nozzle) = Inr AngleOutOfRange
   \<and> calculatePBC exact (Fin 0) (Some software) (Some nozzle) = Inr AngleOutOfRange
   \<and> calculatePBC exact (Fin 90) (Some software) (Some nozzle) = Inr AngleOutOfRange
   \<and> calculatePBC binary64 (Fin 0) (Some software) (Some nozzle) = Inr AngleOutOfRange
   \<and> calculatePBC binary64 (Fin 90) (Some software) (Some nozzle) = Inr AngleOutOfRange"
  by (simp add: pbc_range_exact) (simp add: pbc_range_iff eval_simps)

theorem angle_range_check_witness:
  "calculatePBC binary64 (Fin 90) (Some ''cura'') (Some (Fin (4 / 10))) = Inr AngleOutOfRange
   \<and> calculatePBC exact (Fin (8900 / 100)) (Some ''cura'') (Some (Fin (4 / 10)))
       \<noteq> Inr AngleOutOfRange"
  using angle_range_check [of binary64 "Fin 90" "''cura''" "Fin (4 / 10)" "8900 / 100"]
  by simp

text \<open>
  C7 as stated fails: 89.004 and 0.996 lie outside the range from 1 to 89 and are
  accepted, since they normalise to 89 and to 1.
\<close>

theorem angle_just_outside_accepted:
  "calculatePBC binary64 (Fin (89004 / 1000)) (Some ''orca'') (Some (Fin (4 / 10)))
     \<noteq> Inr AngleOutOfRange
   \<and> calculatePBC exact (Fin (89004 / 1000)) (Some ''orca'') (Some (Fin (4 / 10)))
     \<noteq> Inr AngleOutOfRange
   \<and> calculatePBC binary64 (Fin (996 / 1000)) (Some ''orca'') (Some (Fin (4 / 10)))
     \<noteq> Inr AngleOutOfRange
   \<and> calculatePBC exact (Fin (996 / 1000)) (Some ''orca'') (Some (Fin (4 / 10)))
     \<noteq> Inr AngleOutOfRange"
  by (simp add: pbc_range_iff eval_simps)

section \<open>The overhang calculator in exact arithmetic\<close>

lemma normalized_near: "\<bar>normalized x f - x\<bar> \<le> 1 / (2 * 10 ^ f)"
  using fixed_digits_near[of x f] by (simp add: normalized_def)

lemma normalized_pos: "0 < normalized y 2 \<longleftrightarrow> 5 / 1000 \<le> y"
  unfolding normalized_def fixed_digits_def fixed_int_def
  by (auto simp: zero_less_divide_iff less_floor_iff divide_less_eq)

lemma normalized_integer [simp]: "normalized (of_int n) f = of_int n"
proof (cases "10 ^ 21 \<le> \<bar>of_int n :: real\<bar>")
  case False
  have "fixed_digits (of_int (n * 10 ^ f) / 10 ^ f) f = of_int (n * 10 ^ f) / 10 ^ f"
    by (rule fixed_digits_unique) simp
  then show ?thesis using False by (simp add: normalized_def)
qed (simp add: normalized_def)

lemma normalized_0 [simp]: "normalized 0 f = 0"
  using normalized_integer[of 0 f] by simp

lemma normalized_numeral [simp]: "normalized (numeral n) f = numeral n"
  using normalized_integer[of "numeral n" f] by simp

lemma critical_angle_zero_nozzle:
  assumes "5 / 1000 \<le> h"
  shows "calculateCriticalExtrusionAngle exact (Some (Fin 0)) (Fin h) slicerRadio
    = (if slicer_of slicerRadio = ''orca'' then Inr (MaxAngleOrcaSlicer (Fin 90))
       else Inr (MaxAngleCura (Fin 0)))"
proof -
  have "0 < normalized h 2" using assms by (simp add: normalized_pos)
  then show ?thesis
    by (simp add: calculateCriticalExtrusionAngle_def normalizeNumber_digits exact_def sub_def
      Math_PI_def slicer_of_def Let_def)
qed

text \<open>The arc tangent moves by more than a thousandth between 2/3 and 0.67.\<close>

lemma sin_ge_half:
  fixes x :: real
  assumes "0 \<le> x" "x \<le> 1"
  shows "x / 2 \<le> sin x"
proof -
  have s: "(\<Sum>m<3. sin_coeff m * x ^ m) = x"
    by (simp add: sin_coeff_def numeral_3_eq_3)
  have e: "inverse (fact 3) * \<bar>x\<bar> ^ 3 = x ^ 3 / 6"
    using assms by (simp add: fact_numeral)
  have "\<bar>sin x - (\<Sum>m<3. sin_coeff m * x ^ m)\<bar> \<le> inverse (fact 3) * \<bar>x\<bar> ^ 3"
    by (rule Maclaurin_sin_bound)
  then have "\<bar>sin x - x\<bar> \<le> x ^ 3 / 6" unfolding s e .
  then have "x - x ^ 3 / 6 \<le> sin x" by linarith
  moreover have "x ^ 3 \<le> x * 1"
  proof -
    have "x * x \<le> 1 * 1" using assms by (intro mult_mono) auto
    then have "x * (x * x) \<le> x * 1" using assms by (intro mult_left_mono) auto
    then show ?thesis by (simp add: power3_eq_cube mult.assoc)
  qed
  ultimately show ?thesis using assms(1) by linarith
qed

lemma cos_ge_half:
  fixes t :: real
  assumes "0 \<le> t" "t \<le> 2 / 3"
  shows "1 / 2 \<le> cos t"
proof -
  have "t \<le> pi / 3" using assms(2) pi_ge_two by linarith
  then have "cos (pi / 3) \<le> cos t"
    using assms(1) by (intro cos_monotone_0_pi_le) (auto simp: pi_ge_zero)
  then show ?thesis by (simp add: cos_60)
qed

lemma tan_le_double:
  fixes t :: real
  assumes "0 \<le> t" "t \<le> 2 / 3"
  shows "tan t \<le> 2 * t"
proof -
  have c: "1 / 2 \<le> cos t" by (rule cos_ge_half[OF assms])
  have s: "sin t \<le> t" by (rule sin_x_le_x[OF assms(1)])
  have "tan t = sin t / cos t" by (simp add: tan_def)
  also have "\<dots> \<le> t / cos t" using s c by (intro divide_right_mono) auto
  also have "\<dots> \<le> t / (1 / 2)" using c assms(1) by (intro divide_left_mono) auto
  finally show ?thesis by simp
qed

lemma arctan_ge_half:
  fixes x :: real
  assumes "0 \<le> x" "x \<le> 1"
  shows "x / 2 \<le> arctan x"
proof -
  have "tan (x / 2) \<le> x" using tan_le_double[of "x / 2"] assms by simp
  then have "arctan (tan (x / 2)) \<le> arctan x" by (simp add: arctan_le_iff)
  moreover have "arctan (tan (x / 2)) = x / 2"
    using assms pi_ge_two by (intro arctan_tan) auto
  ultimately show ?thesis by simp
qed

lemma arctan_gap: "1 / 868 \<le> arctan (67 / 100) - arctan (2 / 3)"
proof -
  have "arctan (67 / 100) + arctan (- (2 / 3)) = arctan ((67 / 100 + - (2 / 3)) / (1 - 67 / 100 * - (2 / 3)))"
    by (rule arctan_add) auto
  also have "(67 / 100 + - (2 / 3)) / (1 - 67 / 100 * - (2 / 3)) = (1 / 434 :: real)" by simp
  finally have "arctan (67 / 100) - arctan (2 / 3) = arctan (1 / 434)"
    by (simp add: arctan_minus)
  then show ?thesis using arctan_ge_half[of "1 / 434"] by simp
qed

lemma arctan_le_double:
  fixes w :: real
  assumes "0 \<le> w" "w \<le> 1"
  shows "arctan w \<le> 2 * w"
proof -
  define t where "t = arctan w"
  have t0: "0 \<le> t" using assms by (simp add: t_def zero_le_arctan_iff)
  have "t \<le> arctan 1" unfolding t_def using assms by (simp add: arctan_le_iff)
  then have t1: "t \<le> pi / 4" by (simp add: arctan_one)
  then have t2: "t \<le> 1" "t < pi / 2" using pi_less_4 pi_gt_zero by linarith+
  have c: "0 < cos t" "cos t \<le> 1" using t0 t2 by (simp_all add: cos_gt_zero_pi)
  have s: "t / 2 \<le> sin t" by (rule sin_ge_half[OF t0 t2(1)])
  then have s0: "0 \<le> sin t" using t0 by linarith
  have "sin t / 1 \<le> sin t / cos t" using c s0 by (intro divide_left_mono) auto
  then have "sin t \<le> tan t" by (simp add: tan_def)
  moreover have "tan t = w" by (simp add: t_def tan_arctan)
  ultimately show ?thesis using s unfolding t_def by linarith
qed

lemma arctan_lipschitz:
  fixes x y :: real
  assumes "0 \<le> y" "y \<le> x" "x < 1"
  shows "arctan x - arctan y \<le> 2 * (x - y)"
proof -
  have xy: "0 \<le> x * y" using assms by simp
  define w where "w = (x - y) / (1 + x * y)"
  have "arctan x + arctan (- y) = arctan ((x + - y) / (1 - x * - y))"
    using assms by (intro arctan_add) auto
  then have e: "arctan x - arctan y = arctan w"
    by (simp add: arctan_minus w_def)
  have d: "0 < 1 + x * y" using xy by linarith
  have w0: "0 \<le> w" using assms d by (simp add: w_def)
  have "(x - y) / (1 + x * y) \<le> (x - y) / 1"
    using xy d assms by (intro divide_left_mono) auto
  then have w1: "w \<le> x - y" by (simp add: w_def)
  then have "w \<le> 1" using assms by linarith
  then have "arctan w \<le> 2 * w" using w0 by (intro arctan_le_double)
  then have "arctan x - arctan y \<le> 2 * w" by (simp only: e)
  also have "\<dots> \<le> 2 * (x - y)" using w1 by simp
  finally show ?thesis .
qed

lemma raw_angle_gap:
  "1 / 20 < spec_rawAngle (6 / 10) (2 / 10) - (90 - arctan (67 / 100) * 180 / pi)"
proof -
  have "1 / 20 < (1 / 868) * 180 / (4::real)" by simp
  also have "\<dots> < (1 / 868) * 180 / pi"
    using pi_less_4 pi_gt_zero by (intro divide_strict_left_mono) auto
  also have "\<dots> \<le> (arctan (67 / 100) - arctan (2 / 3)) * 180 / pi"
    using arctan_gap pi_gt_zero by (intro divide_right_mono mult_right_mono) auto
  also have "\<dots> = spec_rawAngle (6 / 10) (2 / 10) - (90 - arctan (67 / 100) * 180 / pi)"
    by (simp add: spec_rawAngle_def field_simps)
  finally show ?thesis .
qed

lemma ratio_rounding_exact:
  "\<exists>v. calculateCriticalExtrusionAngle exact (Some (Fin (6 / 10))) (Fin (2 / 10)) (Some ''cura'')
         = Inr (MaxAngleCura (Fin v))
       \<and> v + 3 / 100 < spec_rawAngle (6 / 10) (2 / 10)"
proof -
  define A where "A = 90 - arctan (67 / 100) * 180 / pi"
  define v where "v = normalized A 2"
  have code: "calculateCriticalExtrusionAngle exact (Some (Fin (6 / 10))) (Fin (2 / 10))
      (Some ''cura'') = Inr (MaxAngleCura (Fin v))"
    by (simp add: calculateCriticalExtrusionAngle_def normalizeNumber_digits exact_def sub_def
        Math_PI_def Let_def v_def A_def)
      (simp add: normalized_def fixed_digits_def fixed_int_def)
  have "\<bar>v - A\<bar> \<le> 1 / 200" using normalized_near[of A 2] by (simp add: v_def)
  then have "v + 3 / 100 < spec_rawAngle (6 / 10) (2 / 10)"
    using raw_angle_gap unfolding A_def by linarith
  then show ?thesis using code by blast
qed

section \<open>The relative error of rounding to a double\<close>

lemma nearest64_half_ulp:
  assumes "x \<noteq> 0"
  shows "\<bar>nearest64 x - x\<bar> \<le> 2 powr of_int (expo64 x) / 2"
proof -
  define s :: real where "s = 2 powr of_int (expo64 x)"
  have s: "0 < s" by (simp add: s_def)
  define q where "q = x / s"
  have "nearest64 x - x = (of_int (round_half_even q) - q) * s"
    using assms s by (simp add: nearest64_expo s_def[symmetric] q_def algebra_simps)
  then have "\<bar>nearest64 x - x\<bar> = \<bar>of_int (round_half_even q) - q\<bar> * s"
    using s by (simp add: abs_mult)
  also have "\<dots> \<le> (1 / 2) * s"
    using round_half_even_near[of q] s by (intro mult_right_mono) auto
  finally show ?thesis by (simp add: s_def)
qed

lemma nearest64_rel:
  assumes "1 / 1024 \<le> \<bar>x\<bar>"
  shows "\<bar>nearest64 x - x\<bar> \<le> \<bar>x\<bar> / 2 ^ 53"
proof -
  have x: "x \<noteq> 0" using assms by auto
  define L where "L = \<lfloor>log 2 \<bar>x\<bar>\<rfloor>"
  have "(2::real) powr (- 10) = 1 / 1024"
    using p2_neg_nat[of 10] by simp
  then have "2 powr (- 10) \<le> \<bar>x\<bar>" using assms by simp
  then have "- 10 \<le> log 2 \<bar>x\<bar>" using x by (simp add: le_log_iff)
  then have "- 10 \<le> L" unfolding L_def by (simp add: le_floor_iff)
  then have e: "expo64 x = L - 52" by (simp add: expo64_def flip: L_def)
  have "(2::real) powr of_int (L - 52) * 2 ^ 52 = 2 powr of_int L"
    using p2_add[of "L - 52" 52] p2_nat[of 52] by simp
  moreover have "2 powr of_int L \<le> \<bar>x\<bar>" using log2_bounds(1)[OF x] by (simp add: L_def)
  ultimately have "(2::real) powr of_int (L - 52) * 2 ^ 52 \<le> \<bar>x\<bar>" by simp
  then have "(2::real) powr of_int (L - 52) / 2 \<le> \<bar>x\<bar> / 2 ^ 53" by (simp add: field_simps)
  then show ?thesis using nearest64_half_ulp[OF x] e by simp
qed

lemma binary64_near:
  assumes "1 / 1024 \<le> \<bar>x\<bar>" "\<bar>x\<bar> \<le> 2 ^ 20"
  shows "binary64 x = Fin (nearest64 x)" "\<bar>nearest64 x - x\<bar> \<le> \<bar>x\<bar> / 2 ^ 53"
    "is_double (nearest64 x)"
proof -
  have "\<bar>nearest64 x\<bar> \<le> 2 * 2 ^ 20" using nearest64_abs_le[of x] assms(2) by linarith
  also have "\<dots> < (2::real) ^ 1024" by simp
  finally have b: "\<bar>nearest64 x\<bar> < 2 ^ 1024" .
  show "binary64 x = Fin (nearest64 x)" by (rule binary64_Fin[OF b])
  show "\<bar>nearest64 x - x\<bar> \<le> \<bar>x\<bar> / 2 ^ 53" by (rule nearest64_rel[OF assms(1)])
  show "is_double (nearest64 x)" by (rule is_double_nearest64[OF b])
qed

lemma nearest64_rel_loose:
  assumes "1 / 1024 \<le> \<bar>x\<bar>"
  shows "\<bar>nearest64 x - x\<bar> \<le> \<bar>x\<bar> / 10 ^ 9"
proof -
  have "\<bar>x\<bar> / 2 ^ 53 \<le> \<bar>x\<bar> / 10 ^ 9" by (intro divide_left_mono) auto
  then show ?thesis using nearest64_rel[OF assms] by linarith
qed

section \<open>The absolute error of rounding to a double\<close>

lemma pi_ge_3: "3 \<le> pi"
proof -
  have "sin (pi / 6) \<le> pi / 6" by (rule sin_x_le_x) (use pi_ge_zero in simp)
  then show ?thesis by (simp add: sin_30)
qed

lemma nearest64_abs_err:
  fixes k :: nat
  assumes "\<bar>x\<bar> < 2 ^ k"
  shows "\<bar>nearest64 x - x\<bar> \<le> 2 ^ k / 2 ^ 54"
proof (cases "x = 0")
  case True
  then show ?thesis by (simp add: nearest64_def)
next
  case False
  have "\<bar>x\<bar> < 2 powr real k" using assms by (simp add: powr_realpow)
  then have "log 2 \<bar>x\<bar> < real k" using False by (simp add: log_less_iff)
  then have "\<lfloor>log 2 \<bar>x\<bar>\<rfloor> < int k" by (simp add: floor_less_iff)
  then have "expo64 x \<le> int k - 53" unfolding expo64_def by simp
  then have "(2::real) powr of_int (expo64 x) \<le> 2 powr of_int (int k - 53)" by (rule p2_mono)
  also have "\<dots> = 2 powr of_int (int k) * 2 powr of_int (- int 53)"
    using p2_add[of "int k" "- int 53"] by simp
  also have "\<dots> = 2 ^ k / 2 ^ 53" using p2_nat[of k] p2_neg_nat[of 53] by simp
  finally have "(2::real) powr of_int (expo64 x) \<le> 2 ^ k / 2 ^ 53" .
  then have "(2::real) powr of_int (expo64 x) / 2 \<le> 2 ^ k / 2 ^ 53 / 2"
    by (rule divide_right_mono) simp
  then have "(2::real) powr of_int (expo64 x) / 2 \<le> 2 ^ k / 2 ^ 54" by simp
  then show ?thesis using nearest64_half_ulp[OF False] by linarith
qed

lemma round64:
  fixes k :: nat
  assumes "\<bar>x\<bar> < 2 ^ k" "k \<le> 1000"
  shows "binary64 x = Fin (nearest64 x)" "is_double (nearest64 x)"
    "\<bar>nearest64 x - x\<bar> \<le> 2 ^ k / 2 ^ 54"
proof -
  have "(2::real) ^ k \<le> 2 ^ 1000" using assms(2) by (intro power_increasing) auto
  then have "2 * \<bar>x\<bar> < 2 * 2 ^ 1000" using assms(1) by linarith
  also have "\<dots> < (2::real) ^ 1024" by simp
  finally have b: "\<bar>nearest64 x\<bar> < 2 ^ 1024" using nearest64_abs_le[of x] by linarith
  show "binary64 x = Fin (nearest64 x)" by (rule binary64_Fin[OF b])
  show "is_double (nearest64 x)" by (rule is_double_nearest64[OF b])
  show "\<bar>nearest64 x - x\<bar> \<le> 2 ^ k / 2 ^ 54" by (rule nearest64_abs_err[OF assms(1)])
qed

lemma round64_4:
  assumes "\<bar>x\<bar> \<le> 4"
  shows "binary64 x = Fin (nearest64 x)" "is_double (nearest64 x)"
    "\<bar>nearest64 x - x\<bar> \<le> 1 / 1000000000000000"
proof -
  have x: "\<bar>x\<bar> < 2 ^ 3" using assms by simp
  show "binary64 x = Fin (nearest64 x)" "is_double (nearest64 x)"
    using round64(1,2)[OF x] by simp_all
  have "\<bar>nearest64 x - x\<bar> \<le> 2 ^ 3 / 2 ^ 54" using round64(3)[OF x] by simp
  also have "\<dots> \<le> (1 / 1000000000000000 :: real)" by simp
  finally show "\<bar>nearest64 x - x\<bar> \<le> 1 / 1000000000000000" .
qed

lemma round64_8000:
  assumes "\<bar>x\<bar> \<le> 8000"
  shows "binary64 x = Fin (nearest64 x)" "is_double (nearest64 x)"
    "\<bar>nearest64 x - x\<bar> \<le> 1 / 1000000000000"
proof -
  have x: "\<bar>x\<bar> < 2 ^ 13" using assms by simp
  show "binary64 x = Fin (nearest64 x)" "is_double (nearest64 x)"
    using round64(1,2)[OF x] by simp_all
  have "\<bar>nearest64 x - x\<bar> \<le> 2 ^ 13 / 2 ^ 54" using round64(3)[OF x] by simp
  also have "\<dots> \<le> (1 / 1000000000000 :: real)" by simp
  finally show "\<bar>nearest64 x - x\<bar> \<le> 1 / 1000000000000" .
qed

lemma round64_big:
  assumes "\<bar>x\<bar> \<le> 30000000"
  shows "binary64 x = Fin (nearest64 x)" "is_double (nearest64 x)"
    "\<bar>nearest64 x - x\<bar> \<le> 1 / 100000000"
proof -
  have x: "\<bar>x\<bar> < 2 ^ 25" using assms by simp
  show "binary64 x = Fin (nearest64 x)" "is_double (nearest64 x)"
    using round64(1,2)[OF x] by simp_all
  have "\<bar>nearest64 x - x\<bar> \<le> 2 ^ 25 / 2 ^ 54" using round64(3)[OF x] by simp
  also have "\<dots> \<le> (1 / 100000000 :: real)" by simp
  finally show "\<bar>nearest64 x - x\<bar> \<le> 1 / 100000000" .
qed

text \<open>Normalising a double to \<open>f\<close> decimals gives the double next to a decimal.\<close>

lemma normalize64_decimal:
  fixes f :: nat
  assumes S: "is_double S" "\<bar>S\<bar> \<le> 20000000" and f: "f \<le> 100"
  shows "\<exists>k. normalizeNumber binary64 (Fin S) (int f)
             = Inr (Fin (nearest64 (of_int k / 10 ^ f)))
           \<and> \<bar>of_int k / 10 ^ f - S\<bar> \<le> 1 / (2 * 10 ^ f)"
proof -
  define k where "k = fixed_int S f"
  have "\<not> 10 ^ 21 \<le> \<bar>S\<bar>" using S(2) by simp
  then have n: "normalized S f = of_int k / 10 ^ f"
    by (simp add: normalized_def fixed_digits_int k_def)
  have near: "\<bar>of_int k / 10 ^ f - S\<bar> \<le> 1 / (2 * 10 ^ f)"
    using fixed_digits_near[of S f] by (simp add: fixed_digits_int k_def)
  have "(1::real) \<le> 10 ^ f" by simp
  then have "(1::real) \<le> 2 * 10 ^ f" by linarith
  then have "1 / (2 * 10 ^ f) \<le> (1 :: real)" by (simp add: field_simps)
  then have "\<bar>of_int k / 10 ^ f :: real\<bar> \<le> 30000000" using near S(2) by linarith
  then have "binary64 (of_int k / 10 ^ f) = Fin (nearest64 (of_int k / 10 ^ f))"
    by (rule round64_big(1))
  then have "normalizeNumber binary64 (Fin S) (int f)
      = Inr (Fin (nearest64 (of_int k / 10 ^ f)))"
    using f by (simp add: normalizeNumber_digits binary64_double[OF S(1)] n)
  then show ?thesis using near by blast
qed

lemma normalize64_on_grid:
  fixes f :: nat
  assumes z: "\<bar>z - of_int k / 10 ^ f\<bar> \<le> 1 / (1000 * 10 ^ f)" "\<bar>z\<bar> \<le> 20000000"
    and f: "f \<le> 2"
  shows "normalizeNumber binary64 (binary64 z) (int f)
           = Inr (Fin (nearest64 (of_int k / 10 ^ f)))"
proof -
  define S where "S = nearest64 z"
  have zb: "\<bar>z\<bar> \<le> 30000000" using z(2) by simp
  have S: "binary64 z = Fin S" "is_double S" "\<bar>S - z\<bar> \<le> 1 / 100000000"
    using round64_big[OF zb] by (simp_all add: S_def)
  have p: "(1::real) \<le> 10 ^ f" "(10::real) ^ f \<le> 100"
    using power_increasing[OF f, of "10::real"] by simp_all
  define t :: real where "t = 10 ^ f"
  have t: "1 \<le> t" "t \<le> 100" using p by (simp_all add: t_def)
  have "t / 100000000 + 1 / 1000 < 1 / 2" using t by linarith
  then have "(t / 100000000 + 1 / 1000) / t < (1 / 2) / t"
    using t by (intro divide_strict_right_mono) auto
  then have "1 / 100000000 + 1 / (1000 * t) < 1 / (2 * t)"
    using t by (simp add: add_divide_distrib)
  then have "1 / 100000000 + 1 / (1000 * 10 ^ f) < 1 / (2 * 10 ^ f :: real)"
    by (simp add: t_def)
  then have "\<bar>S - of_int k / 10 ^ f\<bar> < 1 / (2 * 10 ^ f)" using S(3) z(1) by linarith
  then have fd: "fixed_digits S f = of_int k / 10 ^ f" by (rule fixed_digits_unique)
  have "\<bar>S\<bar> \<le> 20000001" using S(3) z(2) by linarith
  then have "\<not> 10 ^ 21 \<le> \<bar>S\<bar>" by simp
  then have n: "normalized S f = of_int k / 10 ^ f" by (simp add: normalized_def fd)
  have "(1::real) \<le> 1000 * 10 ^ f" using p by linarith
  then have "1 / (1000 * 10 ^ f) \<le> (1 :: real)" by (simp add: field_simps)
  then have "\<bar>of_int k / 10 ^ f :: real\<bar> \<le> 30000000" using z by linarith
  then have "binary64 (of_int k / 10 ^ f) = Fin (nearest64 (of_int k / 10 ^ f))"
    by (rule round64_big(1))
  then show ?thesis
    using f by (simp add: normalizeNumber_digits S(1) binary64_double[OF S(2)] n)
qed

lemma decimal64_less:
  fixes a b :: int
  assumes "\<bar>of_int a / 100 :: real\<bar> \<le> 30000000" "\<bar>of_int b / 100 :: real\<bar> \<le> 30000000"
  shows "nearest64 (of_int a / 100) < nearest64 (of_int b / 100) \<longleftrightarrow> a < b"
proof -
  define x :: real where "x = of_int a / 100"
  define y :: real where "y = of_int b / 100"
  define X where "X = nearest64 x"
  define Y where "Y = nearest64 y"
  have ea: "\<bar>X - x\<bar> \<le> 1 / 100000000"
    unfolding X_def x_def by (rule round64_big(3)[OF assms(1)])
  have eb: "\<bar>Y - y\<bar> \<le> 1 / 100000000"
    unfolding Y_def y_def by (rule round64_big(3)[OF assms(2)])
  consider "a < b" | "a = b" | "b < a" by linarith
  then have "X < Y \<longleftrightarrow> a < b"
  proof cases
    case 1
    then have "a + 1 \<le> b" by simp
    then have "(of_int a + 1 :: real) \<le> of_int b" by linarith
    then have "x + 1 / 100 \<le> y" by (simp add: x_def y_def)
    then have "X < Y" using ea eb by linarith
    then show ?thesis using 1 by simp
  next
    case 2
    then show ?thesis by (simp add: X_def Y_def x_def y_def)
  next
    case 3
    then have "b + 1 \<le> a" by simp
    then have "(of_int b + 1 :: real) \<le> of_int a" by linarith
    then have "y + 1 / 100 \<le> x" by (simp add: x_def y_def)
    then have "Y < X" using ea eb by linarith
    then show ?thesis using 3 by simp
  qed
  then show ?thesis by (simp add: X_def Y_def x_def y_def)
qed

lemma normalize64_round:
  assumes z: "\<bar>z\<bar> \<le> 7000"
  shows "\<exists>k. normalizeNumber binary64 (binary64 z) 2 = Inr (Fin (nearest64 (of_int k / 100)))
           \<and> \<bar>of_int k / 100 - z\<bar> \<le> 5000001 / 1000000000
           \<and> \<bar>nearest64 (of_int k / 100) - z\<bar> \<le> 5000002 / 1000000000"
proof -
  define S where "S = nearest64 z"
  have S: "binary64 z = Fin S" "is_double S" "\<bar>S - z\<bar> \<le> 1 / 1000000000000"
    using round64_8000[of z] z by (simp_all add: S_def)
  have Sb: "\<bar>S\<bar> \<le> 20000000" using S(3) z by linarith
  obtain k where k: "normalizeNumber binary64 (Fin S) (int 2)
        = Inr (Fin (nearest64 (of_int k / 10 ^ 2)))"
      "\<bar>of_int k / 10 ^ 2 - S\<bar> \<le> 1 / (2 * 10 ^ 2)"
    using normalize64_decimal[OF S(2) Sb, of 2] by auto
  define c :: real where "c = of_int k / 100"
  have kS: "\<bar>c - S\<bar> \<le> 1 / 200" using k(2) by (simp add: c_def)
  have "\<bar>c\<bar> \<le> 8000" using kS S(3) z by linarith
  then have "\<bar>nearest64 c - c\<bar> \<le> 1 / 1000000000000" by (rule round64_8000(3))
  then have "\<bar>c - z\<bar> \<le> 5000001 / 1000000000" "\<bar>nearest64 c - z\<bar> \<le> 5000002 / 1000000000"
    using kS S(3) by linarith+
  moreover have "normalizeNumber binary64 (binary64 z) 2 = Inr (Fin (nearest64 c))"
    using k(1) by (simp add: S(1) c_def)
  ultimately show ?thesis unfolding c_def by blast
qed

lemma normalize64_round_big:
  assumes z: "\<bar>z\<bar> \<le> 19000000"
  shows "\<exists>k. normalizeNumber binary64 (binary64 z) 2 = Inr (Fin (nearest64 (of_int k / 100)))
           \<and> \<bar>nearest64 (of_int k / 100) - z\<bar> \<le> 500002 / 100000000"
proof -
  define S where "S = nearest64 z"
  have zb: "\<bar>z\<bar> \<le> 30000000" using z by simp
  have S: "binary64 z = Fin S" "is_double S" "\<bar>S - z\<bar> \<le> 1 / 100000000"
    using round64_big[OF zb] by (simp_all add: S_def)
  have Sb: "\<bar>S\<bar> \<le> 20000000" using S(3) z by linarith
  obtain k where k: "normalizeNumber binary64 (Fin S) (int 2)
        = Inr (Fin (nearest64 (of_int k / 10 ^ 2)))"
      "\<bar>of_int k / 10 ^ 2 - S\<bar> \<le> 1 / (2 * 10 ^ 2)"
    using normalize64_decimal[OF S(2) Sb, of 2] by auto
  define c :: real where "c = of_int k / 100"
  have kS: "\<bar>c - S\<bar> \<le> 1 / 200" using k(2) by (simp add: c_def)
  have "\<bar>c\<bar> \<le> 30000000" using kS S(3) z by linarith
  then have "\<bar>nearest64 c - c\<bar> \<le> 1 / 100000000" by (rule round64_big(3))
  then have "\<bar>nearest64 c - z\<bar> \<le> 500002 / 100000000"
    using kS S(3) by linarith
  moreover have "normalizeNumber binary64 (binary64 z) 2 = Inr (Fin (nearest64 c))"
    using k(1) by (simp add: S(1) c_def)
  ultimately show ?thesis unfolding c_def by blast
qed

lemma normalize64_text:
  assumes "\<bar>z\<bar> \<le> 30000000"
  shows "normalizeNumber binary64 (Fin z) p = normalizeNumber binary64 (binary64 z) p"
proof -
  have "binary64 z = Fin (nearest64 z)" "is_double (nearest64 z)"
    using round64_big(1,2)[OF assms] by simp_all
  then have "parseFloat binary64 (binary64 z) = parseFloat binary64 (Fin z)"
    by (simp add: binary64_double)
  then show ?thesis by (simp add: normalizeNumber_def)
qed

lemma decimal64_idem:
  fixes k :: int
  assumes "\<bar>of_int k / 100 :: real\<bar> \<le> 20000"
  shows "normalizeNumber binary64 (Fin (nearest64 (of_int k / 100))) 2
    = Inr (Fin (nearest64 (of_int k / 100)))"
proof -
  define c :: real where "c = of_int k / 100"
  have cb: "\<bar>c\<bar> \<le> 30000000" using assms by (simp add: c_def)
  have n: "binary64 c = Fin (nearest64 c)" "is_double (nearest64 c)"
      "\<bar>nearest64 c - c\<bar> \<le> 1 / 100000000"
    using round64_big[OF cb] by simp_all
  have "\<bar>nearest64 c - of_int k / 10 ^ 2\<bar> \<le> 1 / (1000 * 10 ^ 2)"
    using n(3) by (simp add: c_def)
  moreover have "\<bar>nearest64 c\<bar> \<le> 20000000" using n(3) assms unfolding c_def by linarith
  ultimately have "normalizeNumber binary64 (binary64 (nearest64 c)) (int 2)
      = Inr (Fin (nearest64 (of_int k / 10 ^ 2)))"
    by (intro normalize64_on_grid) auto
  then have "normalizeNumber binary64 (Fin (nearest64 c)) (int 2)
      = Inr (Fin (nearest64 (of_int k / 10 ^ 2)))"
    unfolding binary64_double[OF n(2)] .
  then show ?thesis unfolding c_def by simp
qed

lemma product_on_grid:
  fixes k :: int
  assumes x: "\<bar>x - X\<bar> \<le> 1 / 1000000000000" and y: "\<bar>y - Y\<bar> \<le> 1 / 1000000000000"
    and X: "\<bar>X\<bar> \<le> 20000" and Y: "\<bar>Y\<bar> \<le> 1" and k: "X * Y = of_int k / 100"
  shows "normalizeNumber binary64 (binary64 (x * y)) 2 = Inr (Fin (nearest64 (of_int k / 100)))"
proof -
  have yb: "\<bar>y\<bar> \<le> 2" using y Y by linarith
  have "x * y - X * Y = (x - X) * y + X * (y - Y)" by (simp add: algebra_simps)
  then have "\<bar>x * y - X * Y\<bar> \<le> \<bar>(x - X) * y\<bar> + \<bar>X * (y - Y)\<bar>" by simp
  also have "\<dots> = \<bar>x - X\<bar> * \<bar>y\<bar> + \<bar>X\<bar> * \<bar>y - Y\<bar>" by (simp add: abs_mult)
  also have "\<dots> \<le> (1 / 1000000000000) * 2 + 20000 * (1 / 1000000000000)"
    using x y X yb by (intro add_mono mult_mono) auto
  also have "\<dots> \<le> 1 / 10000000" by simp
  finally have e: "\<bar>x * y - X * Y\<bar> \<le> 1 / 10000000" .
  have "\<bar>X * Y\<bar> = \<bar>X\<bar> * \<bar>Y\<bar>" by (rule abs_mult)
  also have "\<dots> \<le> 20000 * 1" using X Y by (intro mult_mono) auto
  finally have "\<bar>X * Y\<bar> \<le> 20000" by simp
  then have b: "\<bar>x * y\<bar> \<le> 20000000" using e by linarith
  have "\<bar>x * y - of_int k / 10 ^ 2\<bar> \<le> 1 / (1000 * 10 ^ 2)"
    using e unfolding k by simp
  then have "normalizeNumber binary64 (binary64 (x * y)) (int 2)
      = Inr (Fin (nearest64 (of_int k / 10 ^ 2)))"
    using b by (intro normalize64_on_grid) auto
  then show ?thesis by simp
qed

text \<open>Degrees and radians in doubles.\<close>

lemma arctan_increase_le:
  fixes x y :: real
  assumes "x \<le> y"
  shows "0 \<le> arctan y - arctan x" "arctan y - arctan x \<le> y - x"
proof -
  show "0 \<le> arctan y - arctan x" using assms by (simp add: arctan_le_iff)
  show "arctan y - arctan x \<le> y - x"
  proof (cases "x = y")
    case True
    then show ?thesis by simp
  next
    case False
    then have "x < y" using assms by simp
    then obtain z where z: "arctan y - arctan x = (y - x) * inverse (1 + z\<^sup>2)"
      using MVT2[of x y arctan "\<lambda>t. inverse (1 + t\<^sup>2)"] DERIV_arctan by blast
    have "1 \<le> 1 + z\<^sup>2" by simp
    then have "inverse (1 + z\<^sup>2) \<le> 1" by (rule inverse_le_1_iff[THEN iffD2, OF disjI2])
    then have "(y - x) * inverse (1 + z\<^sup>2) \<le> (y - x) * 1"
      using assms by (intro mult_left_mono) auto
    then show ?thesis using z by simp
  qed
qed

lemma arctan_diff_le:
  fixes x y :: real
  shows "\<bar>arctan x - arctan y\<bar> \<le> \<bar>x - y\<bar>"
proof (cases "x \<le> y")
  case True
  then show ?thesis using arctan_increase_le[OF True] by linarith
next
  case False
  then have "y \<le> x" by simp
  then show ?thesis using arctan_increase_le[of y x] by linarith
qed

lemma arctan_abs_le_2: "\<bar>arctan x\<bar> \<le> 2"
  using arctan_bounded[of x] pi_less_4 by linarith

lemma binary64_pi:
  "\<exists>P. binary64 pi = Fin P \<and> \<bar>P - pi\<bar> \<le> 1 / 1000000000000000 \<and> 29 / 10 \<le> P \<and> P \<le> 41 / 10"
proof -
  have p: "\<bar>pi\<bar> \<le> 4" using pi_less_4 pi_ge_zero by simp
  have "\<bar>nearest64 pi - pi\<bar> \<le> 1 / 1000000000000000" by (rule round64_4(3)[OF p])
  moreover from this have "29 / 10 \<le> nearest64 pi" "nearest64 pi \<le> 41 / 10"
    using pi_ge_3 pi_less_4 by linarith+
  ultimately show ?thesis using round64_4(1)[OF p] by blast
qed

lemma degrees64_abs:
  assumes t: "\<bar>\<theta>\<bar> \<le> 2"
  shows "\<exists>Q. divide_num binary64 (mul binary64 (binary64 \<theta>) (Fin 180)) (binary64 pi) = Fin Q
           \<and> \<bar>Q - \<theta> * 180 / pi\<bar> \<le> 1 / 1000000000"
proof -
  define H where "H = nearest64 \<theta>"
  have tb: "\<bar>\<theta>\<bar> \<le> 4" using t by simp
  have H: "binary64 \<theta> = Fin H" "\<bar>H - \<theta>\<bar> \<le> 1 / 1000000000000000"
    using round64_4(1,3)[OF tb] by (simp_all add: H_def)
  have Hb: "\<bar>H\<bar> \<le> 3" using H(2) t by linarith
  define x1 where "x1 = H * 180"
  have x1b: "\<bar>x1\<bar> \<le> 8000"
  proof -
    have "\<bar>H\<bar> * 180 \<le> 3 * 180" using Hb by simp
    then show ?thesis by (simp add: x1_def abs_mult)
  qed
  define T where "T = nearest64 x1"
  have T: "binary64 x1 = Fin T" "\<bar>T - x1\<bar> \<le> 1 / 1000000000000"
    using round64_8000(1,3)[OF x1b] by (simp_all add: T_def)
  define r where "r = \<theta> * 180"
  have e: "x1 - r = (H - \<theta>) * 180" by (simp add: x1_def r_def algebra_simps)
  have "\<bar>x1 - r\<bar> = \<bar>H - \<theta>\<bar> * 180"
    unfolding e by (rule abs_mult_pos[symmetric]) simp
  also have "\<dots> \<le> (1 / 1000000000000000) * 180"
    using H(2) by (intro mult_right_mono) auto
  also have "\<dots> \<le> 1 / 1000000000000" by simp
  finally have "\<bar>x1 - r\<bar> \<le> 1 / 1000000000000" .
  then have Tr: "\<bar>T - r\<bar> \<le> 2 / 1000000000000" using T(2) by linarith
  have rb: "\<bar>r\<bar> \<le> 360"
  proof -
    have "\<bar>\<theta>\<bar> * 180 \<le> 2 * 180" using t by simp
    then show ?thesis by (simp add: r_def abs_mult)
  qed
  have Tb: "\<bar>T\<bar> \<le> 361" using Tr rb by linarith
  obtain P where P: "binary64 pi = Fin P" "\<bar>P - pi\<bar> \<le> 1 / 1000000000000000"
      "29 / 10 \<le> P" "P \<le> 41 / 10"
    using binary64_pi by blast
  define x2 where "x2 = T / P"
  have x2b: "\<bar>x2\<bar> \<le> 8000"
  proof -
    have P0: "0 < P" using P(3) by linarith
    have "\<bar>T\<bar> / P \<le> 361 / (29 / 10)" using Tb P(3) by (intro frac_le) auto
    also have "\<dots> \<le> (8000 :: real)" by simp
    finally have "\<bar>T\<bar> / P \<le> 8000" .
    moreover have "\<bar>x2\<bar> = \<bar>T\<bar> / P" using P0 by (simp add: x2_def abs_divide)
    ultimately show ?thesis by simp
  qed
  define Q where "Q = nearest64 x2"
  have Q: "binary64 x2 = Fin Q" "\<bar>Q - x2\<bar> \<le> 1 / 1000000000000"
    using round64_8000(1,3)[OF x2b] by (simp_all add: Q_def)
  have eval: "divide_num binary64 (mul binary64 (binary64 \<theta>) (Fin 180)) (binary64 pi) = Fin Q"
    using P(3) by (simp add: H(1) x1_def[symmetric] T(1) P(1) x2_def[symmetric] Q(1))
  have num: "\<bar>T * pi - r * P\<bar> \<le> 1 / 100000000000"
  proof -
    have "T * pi - r * P = (T - r) * pi + r * (pi - P)" by (simp add: algebra_simps)
    then have "\<bar>T * pi - r * P\<bar> \<le> \<bar>(T - r) * pi\<bar> + \<bar>r * (pi - P)\<bar>" by simp
    also have "\<dots> = \<bar>T - r\<bar> * pi + \<bar>r\<bar> * \<bar>P - pi\<bar>"
      using pi_ge_zero by (simp add: abs_mult abs_minus_commute)
    also have "\<dots> \<le> (2 / 1000000000000) * 4 + 360 * (1 / 1000000000000000)"
      using Tr rb P(2) pi_less_4 pi_ge_zero by (intro add_mono mult_mono) auto
    also have "\<dots> \<le> 1 / 100000000000" by simp
    finally show ?thesis .
  qed
  have den: "8 \<le> P * pi"
  proof -
    have "(29 / 10) * 3 \<le> P * pi" using P(3) pi_ge_3 by (intro mult_mono) auto
    then show ?thesis by simp
  qed
  have "x2 - r / pi = (T * pi - r * P) / (P * pi)"
    using P(3) pi_gt_zero by (simp add: x2_def field_simps)
  then have "\<bar>x2 - r / pi\<bar> = \<bar>T * pi - r * P\<bar> / (P * pi)"
    using den by (simp add: abs_divide)
  also have "\<dots> \<le> (1 / 100000000000) / 8" using num den by (intro frac_le) auto
  finally have "\<bar>x2 - r / pi\<bar> \<le> 1 / 800000000000" by simp
  then have "\<bar>Q - r / pi\<bar> \<le> 1 / 1000000000" using Q(2) by linarith
  then show ?thesis using eval unfolding r_def by blast
qed

lemma radians64_abs:
  assumes E: "0 \<le> E" "E \<le> 90"
  shows "\<exists>\<theta>. mul binary64 (Fin E) (divide_num binary64 (binary64 pi) (Fin 180)) = Fin \<theta>
           \<and> \<bar>\<theta> - E * pi / 180\<bar> \<le> 1 / 1000000000000"
proof -
  obtain P where P: "binary64 pi = Fin P" "\<bar>P - pi\<bar> \<le> 1 / 1000000000000000"
      "29 / 10 \<le> P" "P \<le> 41 / 10"
    using binary64_pi by blast
  define x1 where "x1 = P / 180"
  have x1b: "\<bar>x1\<bar> \<le> 4" using P(3,4) by (simp add: x1_def)
  define R where "R = nearest64 x1"
  have R: "binary64 x1 = Fin R" "\<bar>R - x1\<bar> \<le> 1 / 1000000000000000"
    using round64_4(1,3)[OF x1b] by (simp_all add: R_def)
  have "\<bar>x1 - pi / 180\<bar> \<le> 1 / 1000000000000000" unfolding x1_def using P(2) by linarith
  then have Rp: "\<bar>R - pi / 180\<bar> \<le> 2 / 1000000000000000" using R(2) by linarith
  have Rr: "0 \<le> R" "R \<le> 3 / 100" using Rp pi_ge_3 pi_less_4 by linarith+
  define x2 where "x2 = E * R"
  have "E * R \<le> 90 * (3 / 100)" using E Rr by (intro mult_mono) auto
  moreover have "0 \<le> E * R" using E Rr by simp
  ultimately have x2b: "\<bar>x2\<bar> \<le> 4" by (simp add: x2_def)
  define \<theta> where "\<theta> = nearest64 x2"
  have T: "binary64 x2 = Fin \<theta>" "\<bar>\<theta> - x2\<bar> \<le> 1 / 1000000000000000"
    using round64_4(1,3)[OF x2b] by (simp_all add: \<theta>_def)
  have eval: "mul binary64 (Fin E) (divide_num binary64 (binary64 pi) (Fin 180)) = Fin \<theta>"
    by (simp add: P(1) x1_def[symmetric] R(1) x2_def[symmetric] T(1))
  have eq: "x2 - E * pi / 180 = (R - pi / 180) * E" by (simp add: x2_def algebra_simps)
  have "\<bar>x2 - E * pi / 180\<bar> = \<bar>R - pi / 180\<bar> * E"
    unfolding eq by (rule abs_mult_pos[symmetric]) (rule E(1))
  also have "\<dots> \<le> (2 / 1000000000000000) * 90" using Rp E by (intro mult_mono) auto
  finally have "\<bar>x2 - E * pi / 180\<bar> \<le> 180 / 1000000000000000" by simp
  then have "\<bar>\<theta> - E * pi / 180\<bar> \<le> 1 / 1000000000000" using T(2) by linarith
  then show ?thesis using eval by blast
qed

section \<open>The conversion to degrees\<close>

lemma degrees64:
  assumes t: "1 / 4 \<le> \<theta>" "\<theta> \<le> 2"
  shows "\<exists>Q. divide_num binary64 (mul binary64 (binary64 \<theta>) (Fin 180)) (binary64 pi) = Fin Q
           \<and> \<bar>Q - \<theta> * 180 / pi\<bar> \<le> 1 / 10 ^ 6"
proof -
  have "\<bar>\<theta>\<bar> \<le> 2" using t by simp
  then obtain Q where Q: "divide_num binary64 (mul binary64 (binary64 \<theta>) (Fin 180)) (binary64 pi)
        = Fin Q" "\<bar>Q - \<theta> * 180 / pi\<bar> \<le> 1 / 1000000000"
    using degrees64_abs by blast
  have "\<bar>Q - \<theta> * 180 / pi\<bar> \<le> 1 / 10 ^ 6" using Q(2) by simp
  then show ?thesis using Q(1) by blast
qed

section \<open>The overhang calculator in doubles\<close>

lemma is_double_of_int: "\<bar>n\<bar> < 2 ^ 53 \<Longrightarrow> is_double (of_int n)"
proof -
  assume n: "\<bar>n\<bar> < 2 ^ 53"
  then have "\<bar>of_int n :: real\<bar> < of_int (2 ^ 53)" by (simp only: of_int_abs[symmetric] of_int_less_iff)
  also have "\<dots> \<le> 2 ^ 1024" by simp
  finally have "\<bar>of_int n :: real\<bar> < 2 ^ 1024" .
  moreover have "(of_int n :: real) = of_int n * 2 powr of_int 0" by simp
  ultimately show ?thesis unfolding is_double_def using n by (metis neg_le_0_iff_le of_int_0 zero_le_numeral)
qed

lemma normalize64_near_integer:
  assumes z: "\<bar>z - of_int n\<bar> \<le> 1 / 1000" and n: "\<bar>n\<bar> < 2 ^ 53"
  shows "normalizeNumber binary64 (binary64 z) 2 = Inr (Fin (of_int n))"
proof -
  define S where "S = nearest64 z"
  have dn: "is_double (of_int n)" by (rule is_double_of_int[OF n])
  have "(of_int n :: real) = of_int n * 2 powr of_int 0" by simp
  then have "\<bar>S - z\<bar> \<le> \<bar>of_int n - z\<bar>"
    unfolding S_def using nearest64_nearest[OF n, of 0 z] by simp
  then have Sn: "\<bar>S - of_int n\<bar> \<le> 2 / 1000" using z by linarith
  have nb: "\<bar>of_int n :: real\<bar> < 2 ^ 53"
    using n by (metis of_int_abs of_int_less_iff of_int_numeral of_int_power)
  then have Sb: "\<bar>S\<bar> < 2 ^ 53 + 1" using Sn by linarith
  then have "\<bar>S\<bar> < 2 ^ 1024" by (rule less_le_trans) simp
  then have bS: "binary64 z = Fin S" "is_double S"
    unfolding S_def by (simp_all add: binary64_Fin is_double_nearest64)
  have "\<not> 10 ^ 21 \<le> \<bar>S\<bar>" using Sb by simp
  moreover have "fixed_digits S 2 = of_int (n * 100) / 10 ^ 2"
    by (rule fixed_digits_unique) (use Sn in simp)
  ultimately have "normalized S 2 = of_int n" by (simp add: normalized_def)
  then show ?thesis
    by (simp add: normalizeNumber_digits bS binary64_double dn)
qed

lemma overhang64:
  assumes t: "1 / 4 \<le> \<theta>" "\<theta> \<le> 2"
    and n: "\<bar>\<theta> * 180 / pi - (90 - of_int n)\<bar> \<le> 1 / 2000" "\<bar>n\<bar> < 2 ^ 53"
  shows "normalizeNumber binary64
      (sub binary64 (Fin 90)
         (divide_num binary64 (mul binary64 (binary64 \<theta>) (Fin 180)) (binary64 pi))) 2
    = Inr (Fin (of_int n))"
proof -
  obtain Q where Q: "divide_num binary64 (mul binary64 (binary64 \<theta>) (Fin 180)) (binary64 pi) = Fin Q"
      "\<bar>Q - \<theta> * 180 / pi\<bar> \<le> 1 / 10 ^ 6"
    using degrees64[OF t] by blast
  define r where "r = \<theta> * 180 / pi"
  have "\<bar>Q - r\<bar> \<le> 1 / 10 ^ 6" using Q(2) by (simp add: r_def)
  also have "\<dots> \<le> (1 / 2000 :: real)" by simp
  finally have a: "\<bar>Q - r\<bar> \<le> 1 / 2000" .
  have b: "\<bar>r - (90 - of_int n)\<bar> \<le> 1 / 2000" using n(1) by (simp add: r_def)
  have "\<bar>(90 - Q) - of_int n\<bar> \<le> 1 / 1000" using a b by linarith
  then have "normalizeNumber binary64 (binary64 (90 - Q)) 2 = Inr (Fin (of_int n))"
    using n(2) by (rule normalize64_near_integer)
  then show ?thesis by (simp add: Q(1) sub_def)
qed

lemma binary64_small_integers:
  "binary64 2 = Fin 2" "binary64 90 = Fin 90" "binary64 180 = Fin 180" "binary64 45 = Fin 45"
  "binary64 1 = Fin 1" "binary64 89 = Fin 89"
  by (simp_all add: eval_simps)

lemma critical_angle_45_binary64:
  "calculateCriticalExtrusionAngle binary64 (Some (Fin (4 / 10))) (Fin (2 / 10)) slicerRadio
    = (if slicer_of slicerRadio = ''orca'' then Inr (MaxAngleOrcaSlicer (Fin 45))
       else Inr (MaxAngleCura (Fin 45)))"
proof -
  have n1: "normalizeNumber binary64 (Fin (2 / 5)) 1 = Inr (binary64 (2 / 5))"
    by (simp add: eval_simps)
  have n2: "normalizeNumber binary64 (Fin (1 / 5)) 2 = Inr (binary64 (1 / 5))"
    by (simp add: eval_simps)
  have n3: "normalizeNumber binary64
      (divide_num binary64 (binary64 (1 / 5)) (divide_num binary64 (binary64 (2 / 5)) (Fin 2))) 2
      = Inr (Fin 1)"
    by (simp add: eval_simps)
  have n4: "normalizeNumber binary64
      (sub binary64 (Fin 90)
         (divide_num binary64 (mul binary64 (binary64 (pi / 4)) (Fin 180)) (binary64 pi))) 2
      = Inr (Fin 45)"
    using overhang64[of "pi / 4" 45] pi_ge_two pi_less_4 by simp
  have n5: "normalizeNumber binary64 (sub binary64 (Fin 90) (Fin 45)) 2 = Inr (Fin 45)"
    by (simp add: eval_simps)
  have nan: "\<not> isNaN (binary64 (2 / 5))" "\<not> isNaN (binary64 (1 / 5))"
    by (simp_all add: eval_simps)
  show ?thesis
    unfolding calculateCriticalExtrusionAngle_def
    by (simp add: n1 n2 n3 n4 n5 nan binary64_small_integers arctan_one Math_PI_def
        slicer_of_def Let_def)
qed

lemma normalize64_near:
  assumes z: "1 \<le> z" "z \<le> 1000"
  shows "\<exists>v. normalizeNumber binary64 (binary64 z) 2 = Inr (Fin v) \<and> \<bar>v - z\<bar> \<le> 6 / 1000
           \<and> normalizeNumber binary64 (Fin v) 2 = Inr (Fin v)"
proof -
  define S where "S = nearest64 z"
  have zr: "1 / 1024 \<le> \<bar>z\<bar>" "\<bar>z\<bar> \<le> 2 ^ 20" using z by auto
  have S: "binary64 z = Fin S" "is_double S" "\<bar>S - z\<bar> \<le> \<bar>z\<bar> / 10 ^ 9"
    using binary64_near(1,3)[OF zr] nearest64_rel_loose[OF zr(1)] by (simp_all add: S_def)
  have "\<bar>z\<bar> / 10 ^ 9 \<le> 1000 / 10 ^ 9" using z by (intro divide_right_mono) auto
  then have Sz: "\<bar>S - z\<bar> \<le> 1 / 1000000" using S(3) by simp
  define n where "n = normalized S 2"
  have nS: "\<bar>n - S\<bar> \<le> 1 / 200" using normalized_near[of S 2] by (simp add: n_def)
  have nr: "99 / 100 \<le> n" "n \<le> 1001" using nS Sz z by linarith+
  define v where "v = nearest64 n"
  have nr': "1 / 1024 \<le> \<bar>n\<bar>" "\<bar>n\<bar> \<le> 2 ^ 20" using nr by auto
  have v: "binary64 n = Fin v" "\<bar>v - n\<bar> \<le> \<bar>n\<bar> / 10 ^ 9"
    using binary64_near(1)[OF nr'] nearest64_rel_loose[OF nr'(1)] by (simp_all add: v_def)
  have "\<bar>n\<bar> / 10 ^ 9 \<le> 1001 / 10 ^ 9" using nr by (intro divide_right_mono) auto
  then have vn: "\<bar>v - n\<bar> \<le> 2 / 1000000" using v(2) by simp
  have first: "parseFloat binary64 (toFixed_digits (parseFloat binary64 (Fin S)) 2) = Fin v"
    using S(2) v(1) by (simp add: binary64_double n_def)
  have e1: "normalizeNumber binary64 (binary64 z) 2 = Inr (Fin v)"
    using first by (simp add: normalizeNumber_digits S(1))
  have "parseFloat binary64 (toFixed_digits (parseFloat binary64
      (parseFloat binary64 (toFixed_digits (parseFloat binary64 (Fin S)) 2))) 2)
   = parseFloat binary64 (toFixed_digits (parseFloat binary64 (Fin S)) 2)"
    by (rule normalize64_idem)
  then have "parseFloat binary64 (toFixed_digits (parseFloat binary64 (Fin v)) 2) = Fin v"
    unfolding first .
  then have e2: "normalizeNumber binary64 (Fin v) 2 = Inr (Fin v)"
    by (simp add: normalizeNumber_digits)
  have "\<bar>v - z\<bar> \<le> 6 / 1000" using vn nS Sz by linarith
  then show ?thesis using e1 e2 by blast
qed

lemma ratio_rounding_binary64:
  "\<exists>v. calculateCriticalExtrusionAngle binary64 (Some (Fin (6 / 10))) (Fin (2 / 10))
           (Some ''cura'')
         = Inr (MaxAngleCura (Fin v))
       \<and> v + 3 / 100 < spec_rawAngle (6 / 10) (2 / 10)"
proof -
  have n1: "normalizeNumber binary64 (Fin (3 / 5)) 1 = Inr (binary64 (3 / 5))"
    by (simp add: eval_simps)
  have n2: "normalizeNumber binary64 (Fin (1 / 5)) 2 = Inr (binary64 (1 / 5))"
    by (simp add: eval_simps)
  have n3: "normalizeNumber binary64
      (divide_num binary64 (binary64 (1 / 5)) (divide_num binary64 (binary64 (3 / 5)) (Fin 2))) 2
      = Inr (binary64 (67 / 100))"
    by (simp add: eval_simps)
  have nan: "\<not> isNaN (binary64 (3 / 5))" "\<not> isNaN (binary64 (1 / 5))"
    by (simp_all add: eval_simps)
  define B where "B = nearest64 (67 / 100)"
  have B: "binary64 (67 / 100) = Fin B" "\<bar>B - 67 / 100\<bar> \<le> \<bar>67 / 100\<bar> / 10 ^ 9"
    using binary64_near(1)[of "67 / 100"] nearest64_rel_loose[of "67 / 100"]
    by (simp_all add: B_def)
  have Br4: "\<bar>B - 67 / 100\<bar> \<le> 1 / 1000000000" using B(2) by simp
  have Br: "0 \<le> B" "B < 1" "66 / 100 \<le> B" using Br4 by linarith+
  define \<theta> where "\<theta> = arctan B"
  have lip: "arctan (67 / 100) - \<theta> \<le> 2 / 1000000000"
  proof (cases "B \<le> 67 / 100")
    case True
    have "arctan (67 / 100) - arctan B \<le> 2 * (67 / 100 - B)"
      using Br True by (intro arctan_lipschitz) auto
    also have "\<dots> \<le> 2 / 1000000000"
    proof -
      have "67 / 100 - B \<le> 1 / 1000000000" using Br4 by linarith
      then show ?thesis by simp
    qed
    finally show ?thesis unfolding \<theta>_def .
  next
    case False
    then have "arctan (67 / 100) \<le> arctan B" by (simp add: arctan_le_iff)
    then show ?thesis unfolding \<theta>_def by simp
  qed
  have "1 / 4 \<le> B / 2" using Br by linarith
  also have "\<dots> \<le> arctan B" using Br by (intro arctan_ge_half) auto
  finally have t1: "1 / 4 \<le> \<theta>" unfolding \<theta>_def .
  have "arctan B \<le> arctan 1" using Br by (simp add: arctan_le_iff)
  then have t2: "\<theta> \<le> pi / 4" by (simp add: \<theta>_def arctan_one)
  then have t3: "\<theta> \<le> 2" using pi_less_4 by linarith
  obtain Q where Q: "divide_num binary64 (mul binary64 (binary64 \<theta>) (Fin 180)) (binary64 pi)
        = Fin Q" "\<bar>Q - \<theta> * 180 / pi\<bar> \<le> 1 / 10 ^ 6"
    using degrees64[OF t1 t3] by blast
  define D where "D = \<theta> * 180 / pi"
  have Q2: "\<bar>Q - D\<bar> \<le> 1 / 1000000" using Q(2) by (simp add: D_def)
  have d0: "0 \<le> D" using t1 pi_gt_zero by (simp add: D_def)
  have "\<theta> * 180 / pi \<le> (pi / 4) * 180 / pi"
    using t2 pi_gt_zero by (intro divide_right_mono mult_right_mono) auto
  then have d1: "D \<le> 45" by (simp add: D_def)
  have Qr: "1 \<le> 90 - Q" "90 - Q \<le> 1000" using Q2 d0 d1 by linarith+
  obtain v where v: "normalizeNumber binary64 (binary64 (90 - Q)) 2 = Inr (Fin v)"
      "\<bar>v - (90 - Q)\<bar> \<le> 6 / 1000"
    using normalize64_near[OF Qr] by blast
  have code: "calculateCriticalExtrusionAngle binary64 (Some (Fin (6 / 10))) (Fin (2 / 10))
           (Some ''cura'') = Inr (MaxAngleCura (Fin v))"
    unfolding calculateCriticalExtrusionAngle_def
    by (simp add: n1 n2 n3 nan B(1) \<theta>_def[symmetric] Q(1) v(1) binary64_small_integers
        Math_PI_def sub_def Let_def)
  define E where "E = arctan (67 / 100) * 180 / pi"
  have "(arctan (67 / 100) - \<theta>) * 180 / pi \<le> (2 / 1000000000) * 180 / 2"
    using lip pi_ge_two by (intro frac_le mult_right_mono) auto
  also have "\<dots> \<le> 1 / 1000000" by simp
  finally have f: "(arctan (67 / 100) - \<theta>) * 180 / pi \<le> 1 / 1000000" .
  have g: "(arctan (67 / 100) - \<theta>) * 180 / pi = E - D"
    by (simp add: E_def D_def left_diff_distrib diff_divide_distrib)
  have "E - D \<le> 1 / 1000000" using f unfolding g .
  then have "v \<le> 90 - E + 7 / 1000"
    using v(2) Q2 by linarith
  moreover have "1 / 20 < spec_rawAngle (6 / 10) (2 / 10) - (90 - E)"
    using raw_angle_gap by (simp add: E_def)
  ultimately have "v + 3 / 100 < spec_rawAngle (6 / 10) (2 / 10)" by linarith
  then show ?thesis using code by blast
qed

lemma ratio64:
  assumes dr: "9 / 100 \<le> d" "d \<le> 100" and hr: "0 \<le> h" "h \<le> 100"
  shows "\<exists>q. divide_num binary64 (Fin h) (binary64 (d / 2)) = binary64 q
           \<and> \<bar>q\<bar> \<le> 7000 \<and> \<bar>q - h / (d / 2)\<bar> \<le> 1 / 10000000"
proof -
  define w where "w = d / 2"
  have wr: "9 / 200 \<le> w" "w \<le> 50" using dr by (simp_all add: w_def)
  have wb: "\<bar>w\<bar> \<le> 8000" using wr by simp
  define W where "W = nearest64 w"
  have W: "binary64 w = Fin W" "\<bar>W - w\<bar> \<le> 1 / 1000000000000"
    using round64_8000(1,3)[OF wb] by (simp_all add: W_def)
  have Wr: "44 / 1000 \<le> W" "W \<le> 51" using W(2) wr by linarith+
  have W0: "0 < W" "W \<noteq> 0" using Wr by linarith+
  define q where "q = h / W"
  have eval: "divide_num binary64 (Fin h) (binary64 (d / 2)) = binary64 q"
    using W0 by (simp add: w_def[symmetric] W(1) q_def)
  have "h / W \<le> 100 / (44 / 1000)" using hr Wr by (intro frac_le) auto
  also have "\<dots> \<le> (7000 :: real)" by simp
  finally have "h / W \<le> 7000" .
  moreover have "0 \<le> h / W" using hr W0 by simp
  ultimately have qb: "\<bar>q\<bar> \<le> 7000" by (simp add: q_def)
  have "q - h / w = h * (w - W) / (W * w)"
    using W0 wr by (simp add: q_def field_simps)
  then have "\<bar>q - h / w\<bar> = h * \<bar>W - w\<bar> / (W * w)"
    using hr W0 wr by (simp add: abs_divide abs_mult abs_minus_commute)
  also have "\<dots> \<le> 100 * (1 / 1000000000000) / ((44 / 1000) * (9 / 200))"
    using hr W(2) Wr wr by (intro frac_le mult_mono) auto
  also have "\<dots> \<le> 1 / 10000000" by simp
  finally have "\<bar>q - h / (d / 2)\<bar> \<le> 1 / 10000000" by (simp add: w_def)
  then show ?thesis using eval qb by blast
qed

lemma degrees_scale:
  fixes a b :: real
  assumes "\<bar>a - b\<bar> \<le> e"
  shows "\<bar>a * 180 / pi - b * 180 / pi\<bar> \<le> e * 60"
proof -
  have e0: "0 \<le> e" using assms by linarith
  have eq: "a * 180 / pi - b * 180 / pi = (a - b) * (180 / pi)"
    by (simp add: algebra_simps diff_divide_distrib)
  have "\<bar>a * 180 / pi - b * 180 / pi\<bar> = \<bar>a - b\<bar> * (180 / pi)"
    unfolding eq by (rule abs_mult_pos[symmetric]) (use pi_gt_zero in simp)
  also have "\<dots> \<le> e * (180 / 3)"
    using assms e0 pi_ge_3 by (intro mult_mono divide_left_mono) auto
  finally show ?thesis by simp
qed

lemma overhang64_close:
  assumes d: "normalizeNumber binary64 d_text 1 = Inr (Fin d)"
    and h: "normalizeNumber binary64 h_text 2 = Inr (Fin h)"
    and dr: "9 / 100 \<le> d" "d \<le> 100" and hr: "0 \<le> h" "h \<le> 100"
  shows "\<exists>v. calculateCriticalExtrusionAngle binary64 (Some d_text) h_text slicerRadio
           = (if slicer_of slicerRadio = ''orca'' then Inr (MaxAngleOrcaSlicer (Fin v))
              else Inr (MaxAngleCura (Fin v)))
         \<and> \<bar>v - (if slicer_of slicerRadio = ''orca'' then 90 - spec_rawAngle d h
                  else spec_rawAngle d h)\<bar> \<le> 32 / 100"
proof -
  define \<rho> where "\<rho> = h / (d / 2)"
  obtain q where q: "divide_num binary64 (Fin h) (binary64 (d / 2)) = binary64 q"
      "\<bar>q\<bar> \<le> 7000" "\<bar>q - \<rho>\<bar> \<le> 1 / 10000000"
    using ratio64[OF dr hr] unfolding \<rho>_def by blast
  obtain k where k: "normalizeNumber binary64 (binary64 q) 2
        = Inr (Fin (nearest64 (of_int k / 100)))"
      "\<bar>nearest64 (of_int k / 100) - q\<bar> \<le> 5000002 / 1000000000"
    using normalize64_round[OF q(2)] by blast
  define R where "R = nearest64 (of_int k / 100)"
  have Rr: "\<bar>R - \<rho>\<bar> \<le> 50002 / 10000000" using k(2) q(3) unfolding R_def by linarith
  define a where "a = arctan R"
  define A where "A = arctan \<rho> * 180 / pi"
  have "\<bar>a - arctan \<rho>\<bar> \<le> \<bar>R - \<rho>\<bar>" unfolding a_def by (rule arctan_diff_le)
  then have "\<bar>a - arctan \<rho>\<bar> \<le> 50002 / 10000000" using Rr by linarith
  then have "\<bar>a * 180 / pi - arctan \<rho> * 180 / pi\<bar> \<le> (50002 / 10000000) * 60"
    by (rule degrees_scale)
  then have aA: "\<bar>a * 180 / pi - A\<bar> \<le> 300012 / 1000000" by (simp add: A_def)
  obtain Q where Q: "divide_num binary64 (mul binary64 (binary64 a) (Fin 180)) (binary64 pi) = Fin Q"
      "\<bar>Q - a * 180 / pi\<bar> \<le> 1 / 1000000000"
    using degrees64_abs[OF arctan_abs_le_2, of R] unfolding a_def by blast
  have QA: "\<bar>Q - A\<bar> \<le> 300013 / 1000000" using Q(2) aA by linarith
  have Ab: "\<bar>A\<bar> \<le> 120"
  proof -
    have "\<bar>arctan \<rho> * 180 / pi - 0 * 180 / pi\<bar> \<le> 2 * 60"
      by (rule degrees_scale) (use arctan_abs_le_2[of \<rho>] in simp)
    then show ?thesis by (simp add: A_def)
  qed
  have xb: "\<bar>90 - Q\<bar> \<le> 7000" using QA Ab by linarith
  obtain k2 where k2: "normalizeNumber binary64 (binary64 (90 - Q)) 2
        = Inr (Fin (nearest64 (of_int k2 / 100)))"
      "\<bar>nearest64 (of_int k2 / 100) - (90 - Q)\<bar> \<le> 5000002 / 1000000000"
    using normalize64_round[OF xb] by blast
  define V where "V = nearest64 (of_int k2 / 100)"
  have VA: "\<bar>V - (90 - A)\<bar> \<le> 306 / 1000" using k2(2) QA unfolding V_def by linarith
  have yb: "\<bar>90 - V\<bar> \<le> 7000" using VA Ab by linarith
  obtain k3 where k3: "normalizeNumber binary64 (binary64 (90 - V)) 2
        = Inr (Fin (nearest64 (of_int k3 / 100)))"
      "\<bar>nearest64 (of_int k3 / 100) - (90 - V)\<bar> \<le> 5000002 / 1000000000"
    using normalize64_round[OF yb] by blast
  define V2 where "V2 = nearest64 (of_int k3 / 100)"
  have V2A: "\<bar>V2 - A\<bar> \<le> 32 / 100" using k3(2) VA unfolding V2_def by linarith
  have spec: "spec_rawAngle d h = 90 - A" by (simp add: spec_rawAngle_def A_def \<rho>_def)
  have code: "calculateCriticalExtrusionAngle binary64 (Some d_text) h_text slicerRadio
      = (if slicer_of slicerRadio = ''orca'' then Inr (MaxAngleOrcaSlicer (Fin V2))
         else Inr (MaxAngleCura (Fin V)))"
    unfolding calculateCriticalExtrusionAngle_def
    by (simp add: d h q(1) k(1) R_def[symmetric] a_def[symmetric] Q(1) binary64_small_integers
        Math_PI_def sub_def k2(1) V_def[symmetric] k3(1) V2_def[symmetric] slicer_of_def Let_def)
  show ?thesis
  proof (cases "slicer_of slicerRadio = ''orca''")
    case True
    have "\<bar>V2 - (90 - spec_rawAngle d h)\<bar> \<le> 32 / 100" using V2A unfolding spec by simp
    then show ?thesis using code True by auto
  next
    case False
    have "\<bar>V - spec_rawAngle d h\<bar> \<le> 32 / 100" using VA unfolding spec by linarith
    then show ?thesis using code False by auto
  qed
qed

text \<open>
  C1, in doubles. Let \<open>d\<close> be the nozzle diameter as the calculator reads it, the checked
  value normalised to one decimal, and \<open>h\<close> the layer height as it reads it, the typed value
  normalised to two decimals, with \<open>d\<close> from 0.09 to 100 and \<open>h\<close> from 0 to 100. Under the Cura
  convention the calculator shows an angle within 0.32 degrees of the raw angle, ninety
  degrees less the arc tangent of \<open>h / (d / 2)\<close> in degrees, and under the Orca convention an
  angle within 0.32 degrees of ninety less the raw angle. For a diameter of 0.4 and a height
  of 0.2 it shows exactly 45 under both conventions.
\<close>

theorem overhang_angle_close_to_formula:
  "(normalizeNumber binary64 d_text 1 = Inr (Fin d)
      \<and> normalizeNumber binary64 h_text 2 = Inr (Fin h)
      \<and> 9 / 100 \<le> d \<and> d \<le> 100 \<and> 0 \<le> h \<and> h \<le> 100
    \<longrightarrow> (\<exists>v. calculateCriticalExtrusionAngle binary64 (Some d_text) h_text slicerRadio
              = (if slicer_of slicerRadio = ''orca'' then Inr (MaxAngleOrcaSlicer (Fin v))
                 else Inr (MaxAngleCura (Fin v)))
            \<and> \<bar>v - (if slicer_of slicerRadio = ''orca'' then 90 - spec_rawAngle d h
                     else spec_rawAngle d h)\<bar> \<le> 32 / 100))
   \<and> calculateCriticalExtrusionAngle binary64 (Some (Fin (4 / 10))) (Fin (2 / 10)) slicerRadio
        = (if slicer_of slicerRadio = ''orca'' then Inr (MaxAngleOrcaSlicer (Fin 45))
           else Inr (MaxAngleCura (Fin 45)))"
  using overhang64_close[of d_text d h_text h slicerRadio]
    critical_angle_45_binary64[of slicerRadio]
  by blast

theorem overhang_angle_close_to_formula_witness:
  "normalizeNumber binary64 (Fin (8 / 10)) 1
     = Inr (Fin (3602879701896397 / 4503599627370496))
   \<and> normalizeNumber binary64 (Fin (35 / 100)) 2
     = Inr (Fin (3152519739159347 / 9007199254740992))
   \<and> (\<exists>v. calculateCriticalExtrusionAngle binary64 (Some (Fin (8 / 10))) (Fin (35 / 100))
             (Some ''cura'')
           = Inr (MaxAngleCura (Fin v))
         \<and> \<bar>v - spec_rawAngle (3602879701896397 / 4503599627370496)
                  (3152519739159347 / 9007199254740992)\<bar> \<le> 32 / 100)"
proof -
  have d: "normalizeNumber binary64 (Fin (8 / 10)) 1
     = Inr (Fin (3602879701896397 / 4503599627370496))"
    by (simp add: eval_simps)
  have h: "normalizeNumber binary64 (Fin (35 / 100)) 2
     = Inr (Fin (3152519739159347 / 9007199254740992))"
    by (simp add: eval_simps)
  show ?thesis
    using d h
      overhang_angle_close_to_formula
        [where d_text = "Fin (8 / 10)" and d = "3602879701896397 / 4503599627370496"
           and h_text = "Fin (35 / 100)" and h = "3152519739159347 / 9007199254740992"
           and slicerRadio = "Some ''cura''"]
    by (simp add: slicer_of_def)
qed

text \<open>
  C1 as stated fails: the calculator normalises the ratio and the angles to two decimals.
  For a diameter of 0.6 and a height of 0.2 the ratio 2/3 becomes 0.67 before the arc
  tangent, and the angle shown under the Cura convention is more than 0.03 degrees below
  the specification's raw angle, in exact arithmetic and in doubles.
\<close>

theorem ratio_rounding_changes_angle:
  "(\<exists>v. calculateCriticalExtrusionAngle exact (Some (Fin (6 / 10))) (Fin (2 / 10))
            (Some ''cura'')
          = Inr (MaxAngleCura (Fin v))
        \<and> v + 3 / 100 < spec_rawAngle (6 / 10) (2 / 10))
   \<and> (\<exists>v. calculateCriticalExtrusionAngle binary64 (Some (Fin (6 / 10))) (Fin (2 / 10))
            (Some ''cura'')
          = Inr (MaxAngleCura (Fin v))
        \<and> v + 3 / 100 < spec_rawAngle (6 / 10) (2 / 10))"
  using ratio_rounding_exact ratio_rounding_binary64 by blast

section \<open>A nozzle diameter of zero\<close>

lemma zero_nozzle_binary64:
  assumes h: "normalizeNumber binary64 (Fin h) 2 = Inr (Fin y)" and y: "0 < y"
  shows "calculateCriticalExtrusionAngle binary64 (Some (Fin 0)) (Fin h) slicerRadio
    = (if slicer_of slicerRadio = ''orca'' then Inr (MaxAngleOrcaSlicer (Fin 90))
       else Inr (MaxAngleCura (Fin 0)))"
proof -
  have n1: "normalizeNumber binary64 (Fin 0) 1 = Inr (Fin 0)"
    by (simp add: eval_simps)
  have n3: "normalizeNumber binary64 PosInf 2 = Inr PosInf"
    by (simp add: normalizeNumber_digits)
  have n4: "normalizeNumber binary64
      (sub binary64 (Fin 90)
         (divide_num binary64 (mul binary64 (binary64 (pi / 2)) (Fin 180)) (binary64 pi))) 2
      = Inr (Fin 0)"
    using overhang64[of "pi / 2" 0] pi_ge_two pi_less_4 by simp
  have n5: "normalizeNumber binary64 (sub binary64 (Fin 90) (Fin 0)) 2 = Inr (Fin 90)"
    by (simp add: eval_simps)
  show ?thesis
    unfolding calculateCriticalExtrusionAngle_def
    using y
    by (simp add: h n1 n3 n4 n5 binary64_small_integers binary64_0 Math_PI_def
        slicer_of_def Let_def)
qed

lemma zero_nozzle_exact:
  assumes h: "normalizeNumber exact (Fin h) 2 = Inr (Fin y)" and y: "0 < y"
  shows "calculateCriticalExtrusionAngle exact (Some (Fin 0)) (Fin h) slicerRadio
    = (if slicer_of slicerRadio = ''orca'' then Inr (MaxAngleOrcaSlicer (Fin 90))
       else Inr (MaxAngleCura (Fin 0)))"
proof -
  have "y = normalized h 2" using h by (simp add: normalizeNumber_digits exact_def)
  then have "5 / 1000 \<le> h" using y by (simp add: normalized_pos)
  then show ?thesis by (rule critical_angle_zero_nozzle)
qed

text \<open>
  C10, for a layer height that normalises to a positive number. With a nozzle diameter of
  zero and such a layer height the calculator reports no input error: the ratio is infinite,
  the arc tangent is a quarter turn, and the angle shown is 0 under the Cura convention and
  90 under the Orca convention, in exact arithmetic and in doubles.
\<close>

theorem zero_nozzle_saturates:
  "(fl = exact \<or> fl = binary64) \<and> normalizeNumber fl (Fin h) 2 = Inr (Fin y) \<and> 0 < y
   \<longrightarrow> calculateCriticalExtrusionAngle fl (Some (Fin 0)) (Fin h) slicerRadio
       = (if slicer_of slicerRadio = ''orca'' then Inr (MaxAngleOrcaSlicer (Fin 90))
          else Inr (MaxAngleCura (Fin 0)))"
  using zero_nozzle_exact[of h y slicerRadio] zero_nozzle_binary64[of h y slicerRadio]
  by blast

theorem zero_nozzle_saturates_witness:
  "normalizeNumber exact (Fin (2 / 10)) 2 = Inr (Fin (2 / 10)) \<and> 0 < (2 / 10 :: real)
   \<and> calculateCriticalExtrusionAngle exact (Some (Fin 0)) (Fin (2 / 10)) (Some ''cura'')
       = Inr (MaxAngleCura (Fin 0))
   \<and> calculateCriticalExtrusionAngle exact (Some (Fin 0)) (Fin (2 / 10)) None
       = Inr (MaxAngleOrcaSlicer (Fin 90))
   \<and> normalizeNumber binary64 (Fin (2 / 10)) 2
       = Inr (Fin (3602879701896397 / 18014398509481984))
   \<and> calculateCriticalExtrusionAngle binary64 (Some (Fin 0)) (Fin (2 / 10)) (Some ''cura'')
       = Inr (MaxAngleCura (Fin 0))
   \<and> calculateCriticalExtrusionAngle binary64 (Some (Fin 0)) (Fin (2 / 10)) None
       = Inr (MaxAngleOrcaSlicer (Fin 90))"
proof -
  have e: "normalizeNumber exact (Fin (2 / 10)) 2 = Inr (Fin (2 / 10))"
    by (simp add: eval_simps)
  have b: "normalizeNumber binary64 (Fin (2 / 10)) 2
       = Inr (Fin (3602879701896397 / 18014398509481984))"
    by (simp add: eval_simps)
  show ?thesis
    using zero_nozzle_saturates[of exact "2 / 10" "2 / 10" "Some ''cura''"]
      zero_nozzle_saturates[of exact "2 / 10" "2 / 10" None]
      zero_nozzle_saturates[of binary64 "2 / 10" "3602879701896397 / 18014398509481984"
        "Some ''cura''"]
      zero_nozzle_saturates[of binary64 "2 / 10" "3602879701896397 / 18014398509481984" None]
      e b
    by (simp add: slicer_of_def)
qed

text \<open>
  C10 as stated fails: a layer height of 0.004 is a positive number that normalises to zero;
  with a nozzle diameter of zero the ratio is then zero over zero, and the angle shown is
  \<open>NaN\<close> under both conventions.
\<close>

theorem tiny_height_zero_nozzle:
  "calculateCriticalExtrusionAngle exact (Some (Fin 0)) (Fin (4 / 1000)) (Some ''cura'')
     = Inr (MaxAngleCura NaN)
   \<and> calculateCriticalExtrusionAngle exact (Some (Fin 0)) (Fin (4 / 1000)) None
     = Inr (MaxAngleOrcaSlicer NaN)
   \<and> calculateCriticalExtrusionAngle binary64 (Some (Fin 0)) (Fin (4 / 1000)) (Some ''cura'')
     = Inr (MaxAngleCura NaN)
   \<and> calculateCriticalExtrusionAngle binary64 (Some (Fin 0)) (Fin (4 / 1000)) None
     = Inr (MaxAngleOrcaSlicer NaN)"
  by (simp add: calculateCriticalExtrusionAngle_def eval_simps)

section \<open>The layer-height calculator in doubles\<close>

lemma tan_diff_sin:
  fixes x y :: real
  assumes "cos x \<noteq> 0" "cos y \<noteq> 0"
  shows "tan x - tan y = sin (x - y) / (cos x * cos y)"
  using assms by (simp add: tan_def sin_diff field_simps)

lemma cos_ge_half_pi3:
  fixes t :: real
  assumes "0 \<le> t" "t \<le> pi / 3"
  shows "1 / 2 \<le> cos t"
proof -
  have "cos (pi / 3) \<le> cos t"
    using assms by (intro cos_monotone_0_pi_le) (auto simp: pi_ge_zero)
  then show ?thesis by (simp add: cos_60)
qed

lemma tan_near_quarter_pi:
  fixes \<theta> :: real
  assumes "\<bar>\<theta> - pi / 4\<bar> \<le> 1 / 10"
  shows "\<bar>tan \<theta> - 1\<bar> \<le> 4 * \<bar>\<theta> - pi / 4\<bar>"
proof -
  have r: "0 \<le> \<theta>" "\<theta> \<le> pi / 3" using assms pi_ge_two by linarith+
  have c1: "1 / 2 \<le> cos \<theta>" by (rule cos_ge_half_pi3[OF r])
  have c2: "1 / 2 \<le> cos (pi / 4)" by (rule cos_ge_half_pi3) (use pi_ge_zero in auto)
  have "tan \<theta> - tan (pi / 4) = sin (\<theta> - pi / 4) / (cos \<theta> * cos (pi / 4))"
    using c1 c2 by (intro tan_diff_sin) auto
  then have "\<bar>tan \<theta> - 1\<bar> = \<bar>sin (\<theta> - pi / 4)\<bar> / (cos \<theta> * cos (pi / 4))"
    using c1 c2 by (simp add: tan_45 abs_divide abs_mult)
  also have "\<dots> \<le> \<bar>\<theta> - pi / 4\<bar> / (cos \<theta> * cos (pi / 4))"
    using c1 c2 by (intro divide_right_mono abs_sin_x_le_abs_x) auto
  also have "\<dots> \<le> \<bar>\<theta> - pi / 4\<bar> / ((1 / 2) * (1 / 2))"
    using c1 c2 by (intro divide_left_mono mult_mono) auto
  finally show ?thesis by simp
qed

lemma radians64_gen:
  assumes a: "1 \<le> a" "a \<le> 90"
  shows "\<exists>\<theta>. mul binary64 (Fin a) (divide_num binary64 (binary64 pi) (Fin 180)) = Fin \<theta>
        \<and> \<bar>\<theta> - a * pi / 180\<bar> \<le> 1 / 10 ^ 8"
proof -
  have "0 \<le> a" using a by simp
  then obtain \<theta> where th: "mul binary64 (Fin a) (divide_num binary64 (binary64 pi) (Fin 180))
        = Fin \<theta>" "\<bar>\<theta> - a * pi / 180\<bar> \<le> 1 / 1000000000000"
    using radians64_abs[of a] a(2) by blast
  have "\<bar>\<theta> - a * pi / 180\<bar> \<le> 1 / 10 ^ 8" using th(2) by simp
  then show ?thesis using th(1) by blast
qed

lemma radians64:
  "\<exists>\<theta>. mul binary64 (Fin 45) (divide_num binary64 (binary64 pi) (Fin 180)) = Fin \<theta>
        \<and> \<bar>\<theta> - pi / 4\<bar> \<le> 1 / 10 ^ 6"
proof -
  obtain \<theta> where th: "mul binary64 (Fin 45) (divide_num binary64 (binary64 pi) (Fin 180)) = Fin \<theta>"
      "\<bar>\<theta> - 45 * pi / 180\<bar> \<le> 1 / 10 ^ 8"
    using radians64_gen[of 45] by auto
  have "\<bar>\<theta> - pi / 4\<bar> \<le> 1 / 10 ^ 8" using th(2) by simp
  also have "\<dots> \<le> (1 / 10 ^ 6 :: real)" by simp
  finally show ?thesis using th(1) by blast
qed

lemma normalize64_near_grid:
  assumes c: "\<bar>m\<bar> < (2::int) ^ 53" "(- 1074 :: int) \<le> e"
    and cz: "\<bar>of_int m * 2 powr of_int e - z\<bar> \<le> 1 / 1000"
    and zk: "\<bar>z - of_int k / 100\<bar> \<le> 1 / 1000"
    and zb: "\<bar>z\<bar> \<le> 2 ^ 53"
  shows "normalizeNumber binary64 (binary64 z) 2 = Inr (binary64 (of_int k / 100))"
proof -
  define S where "S = nearest64 z"
  have "\<bar>S - z\<bar> \<le> \<bar>of_int m * 2 powr of_int e - z\<bar>"
    unfolding S_def by (rule nearest64_nearest[OF c])
  then have Sz: "\<bar>S - z\<bar> \<le> 1 / 1000" using cz by linarith
  then have Sk: "\<bar>S - of_int k / 100\<bar> \<le> 2 / 1000" using zk by linarith
  have Sb: "\<bar>S\<bar> \<le> 2 ^ 53 + 1" using Sz zb by linarith
  then have "\<bar>S\<bar> < 2 ^ 1024" by (rule le_less_trans) simp
  then have bS: "binary64 z = Fin S" "is_double S"
    unfolding S_def by (simp_all add: binary64_Fin is_double_nearest64)
  have "\<not> 10 ^ 21 \<le> \<bar>S\<bar>" using Sb by simp
  moreover have "fixed_digits S 2 = of_int k / 10 ^ 2"
    by (rule fixed_digits_unique) (use Sk in simp)
  ultimately have "normalized S 2 = of_int k / 100" by (simp add: normalized_def)
  then have "toFixed_digits (Fin S) 2 = Fin (of_int k / 100)" by simp
  then show ?thesis
    by (simp add: normalizeNumber_digits bS binary64_double del: toFixed_digits.simps)
qed

lemma layer_height_45_binary64:
  "normalizeNumber binary64
     (mul binary64
        (Math_tan binary64 (mul binary64 (Fin 45) (divide_num binary64 (binary64 pi) (Fin 180))))
        (binary64 (1 / 5))) 2
   = Inr (binary64 (1 / 5))"
proof -
  obtain \<theta> where th: "mul binary64 (Fin 45) (divide_num binary64 (binary64 pi) (Fin 180)) = Fin \<theta>"
      "\<bar>\<theta> - pi / 4\<bar> \<le> 1 / 10 ^ 6"
    using radians64 by blast
  have "\<bar>\<theta> - pi / 4\<bar> \<le> 1 / 10" using th(2) by (rule order_trans) simp
  then have "\<bar>tan \<theta> - 1\<bar> \<le> 4 * \<bar>\<theta> - pi / 4\<bar>" by (rule tan_near_quarter_pi)
  also have "\<dots> \<le> 4 * (1 / 10 ^ 6)" using th(2) by (intro mult_left_mono) auto
  finally have tn: "\<bar>tan \<theta> - 1\<bar> \<le> 4 / 1000000" by simp
  define t where "t = nearest64 (tan \<theta>)"
  have "\<bar>t - tan \<theta>\<bar> \<le> \<bar>of_int 1 * 2 powr of_int 0 - tan \<theta>\<bar>"
    unfolding t_def by (rule nearest64_nearest) simp_all
  then have "\<bar>t - tan \<theta>\<bar> \<le> \<bar>1 - tan \<theta>\<bar>" by simp
  then have t1: "\<bar>t - 1\<bar> \<le> 8 / 1000000" using tn by linarith
  have "\<bar>t\<bar> \<le> 2" using t1 by linarith
  also have "(2::real) < 2 ^ 1024" by simp
  finally have "\<bar>t\<bar> < 2 ^ 1024" .
  then have bt: "binary64 (tan \<theta>) = Fin t" unfolding t_def by (rule binary64_Fin)
  define h where "h = nearest64 (1 / 5)"
  have h: "binary64 (1 / 5) = Fin h" "\<bar>h - 1 / 5\<bar> \<le> \<bar>1 / 5\<bar> / 10 ^ 9"
    using binary64_near(1)[of "1 / 5"] nearest64_rel_loose[of "1 / 5"] by (simp_all add: h_def)
  obtain m e where me: "\<bar>m\<bar> < (2 :: int) ^ 53" "(- 1074 :: int) \<le> e"
      "h = of_int m * 2 powr of_int e"
    using nearest64_shape[of "1 / 5"] by (auto simp: h_def)
  have "\<bar>h - 1 / 5\<bar> \<le> 1 / 1000" using h(2) by (rule order_trans) simp
  then have hb: "0 \<le> h" "h \<le> 1 / 4" by linarith+
  have "t * h - h = (t - 1) * h" by (simp add: algebra_simps)
  then have "\<bar>t * h - h\<bar> = \<bar>t - 1\<bar> * \<bar>h\<bar>" by (simp only: abs_mult)
  then have "\<bar>t * h - h\<bar> = \<bar>t - 1\<bar> * h" using hb by simp
  also have "\<dots> \<le> (8 / 1000000) * (1 / 4)" using t1 hb by (intro mult_mono) auto
  finally have zh: "\<bar>t * h - h\<bar> \<le> 2 / 1000000" by simp
  have "\<bar>t * h - of_int 20 / 100\<bar> \<le> \<bar>t * h - h\<bar> + \<bar>h - 1 / 5\<bar>" by simp
  also have "\<dots> \<le> 2 / 1000000 + \<bar>1 / 5\<bar> / 10 ^ 9" using zh h(2) by linarith
  also have "\<dots> \<le> 1 / 1000" by simp
  finally have zk: "\<bar>t * h - of_int 20 / 100\<bar> \<le> 1 / 1000" .
  have cz: "\<bar>of_int m * 2 powr of_int e - t * h\<bar> \<le> 1 / 1000"
    using zh by (simp add: me(3)[symmetric] abs_minus_commute)
  have "\<bar>t * h\<bar> \<le> 1" using zh hb by linarith
  also have "(1::real) \<le> 2 ^ 53" by simp
  finally have zb: "\<bar>t * h\<bar> \<le> 2 ^ 53" .
  have "normalizeNumber binary64 (binary64 (t * h)) 2 = Inr (binary64 (of_int 20 / 100))"
    by (rule normalize64_near_grid[OF me(1,2) cz zk zb])
  then show ?thesis by (simp add: th(1) bt h(1))
qed

lemma pbc_45_binary64:
  "calculatePBC binary64 (Fin 45) (Some ''orca'') (Some (Fin (4 / 10)))
     = Inr (HeightValid (binary64 (4 / 10)) (binary64 (2 / 10)))"
proof -
  have a1: "normalizeNumber binary64 (Fin 45) 2 = Inr (Fin 45)"
    by (simp add: eval_simps)
  have a2: "normalizeNumber binary64 (Fin (2 / 5)) 1 = Inr (binary64 (2 / 5))"
    by (simp add: eval_simps)
  have d2: "divide_num binary64 (binary64 (2 / 5)) (Fin 2) = binary64 (1 / 5)"
    by (simp add: eval_simps)
  show ?thesis
    unfolding calculatePBC_def
    apply (simp add: a1 a2 d2 binary64_small_integers layer_height_45_binary64 Math_PI_def gt_def)
    apply (simp add: eval_simps)
    done
qed

section \<open>The layer-height calculator in exact arithmetic\<close>

lemma sin_pos_le:
  fixes x :: real
  assumes "0 < x" "x \<le> 1"
  shows "0 < sin x" "sin x \<le> x"
  using assms sin_gt_zero[of x] sin_x_le_x[of x] pi_ge_two by auto

lemma tan_gap_near_89:
  "8 / 100 \<le> tan (89 * (pi / 180)) - tan (88996 / 1000 * pi / 180)"
proof -
  define u where "u = 89 * (pi / 180)"
  define w where "w = 88996 / 1000 * pi / 180"
  have cu: "cos u = sin (pi / 180)" unfolding u_def by (simp add: cos_sin_eq field_simps)
  have cw: "cos w = sin (1004 / 1000 * pi / 180)"
    unfolding w_def by (simp add: cos_sin_eq field_simps)
  have d: "u - w = pi / 45000" by (simp add: u_def w_def field_simps)
  have r1: "0 < pi / 180" "pi / 180 \<le> 1" using pi_gt_zero pi_less_4 by auto
  have r2: "0 < 1004 / 1000 * pi / 180" "1004 / 1000 * pi / 180 \<le> 1"
    using pi_gt_zero pi_less_4 by auto
  have r3: "0 \<le> pi / 45000" "pi / 45000 \<le> 1" using pi_gt_zero pi_less_4 by auto
  have su: "0 < cos u" "cos u \<le> pi / 180" using sin_pos_le[OF r1] by (simp_all add: cu)
  have sw: "0 < cos w" "cos w \<le> 1004 / 1000 * pi / 180"
    using sin_pos_le[OF r2] by (simp_all add: cw)
  have sd: "pi / 90000 \<le> sin (u - w)" using sin_ge_half[OF r3] by (simp add: d)
  have prod: "cos u * cos w \<le> (pi / 180) * (1004 / 1000 * pi / 180)"
    using su sw by (intro mult_mono) auto
  have "tan u - tan w = sin (u - w) / (cos u * cos w)"
    using su sw by (intro tan_diff_sin) auto
  moreover have "(pi / 90000) / ((pi / 180) * (1004 / 1000 * pi / 180))
      \<le> sin (u - w) / (cos u * cos w)"
    using sd prod su sw pi_gt_zero by (intro frac_le) auto
  moreover have "(pi / 90000) / ((pi / 180) * (1004 / 1000 * pi / 180)) = 90 / (251 * pi)"
    by (simp add: field_simps)
  moreover have "8 / 100 \<le> 90 / (251 * pi)"
  proof -
    have "8 / 100 \<le> 90 / (251 * (4::real))" by simp
    also have "\<dots> \<le> 90 / (251 * pi)"
      using pi_less_4 pi_gt_zero by (intro divide_left_mono mult_left_mono) auto
    finally show ?thesis .
  qed
  ultimately show ?thesis by (simp add: u_def w_def)
qed

lemma tan_89_bounds: "22 \<le> tan (89 * (pi / 180))" "tan (89 * (pi / 180)) \<le> 180"
proof -
  define u where "u = 89 * (pi / 180)"
  have cu: "cos u = sin (pi / 180)" unfolding u_def by (simp add: cos_sin_eq field_simps)
  have su: "sin u = cos (pi / 180)" unfolding u_def by (simp add: sin_cos_eq field_simps)
  have r0: "0 \<le> pi / 180" "pi / 180 \<le> 1" using pi_gt_zero pi_less_4 by auto
  have r1: "0 < pi / 180" using pi_gt_zero by simp
  have c1: "pi / 180 / 2 \<le> cos u" unfolding cu by (rule sin_ge_half[OF r0])
  have c2: "cos u \<le> pi / 180" unfolding cu using sin_pos_le(2)[OF r1 r0(2)] .
  have c3: "1 / 180 \<le> cos u" using c1 pi_ge_two by linarith
  have c4: "cos u \<le> 1 / 45" using c2 pi_less_4 by linarith
  have s1: "1 / 2 \<le> sin u" unfolding su
    by (rule cos_ge_half_pi3) (use pi_gt_zero in auto)
  have s2: "sin u \<le> 1" by simp
  have "22 \<le> (1 / 2) / (1 / 45 :: real)" by simp
  also have "\<dots> \<le> sin u / cos u" using s1 c3 c4 by (intro frac_le) auto
  finally show "22 \<le> tan (89 * (pi / 180))" unfolding u_def[symmetric] tan_def .
  have "sin u / cos u \<le> 1 / (1 / 180)" using s1 s2 c3 by (intro frac_le) auto
  also have "\<dots> = (180 :: real)" by simp
  finally show "tan (89 * (pi / 180)) \<le> 180" unfolding u_def[symmetric] tan_def .
qed

lemma tan_near_89:
  fixes \<theta> :: real
  assumes "\<bar>\<theta> - 89 * (pi / 180)\<bar> \<le> 1 / 100000000"
  shows "\<bar>tan \<theta> - tan (89 * (pi / 180))\<bar> \<le> 1 / 2000"
proof -
  define u where "u = 89 * (pi / 180)"
  have a: "\<bar>\<theta> - u\<bar> \<le> 1 / 100000000" using assms by (simp add: u_def)
  have cu: "cos u = sin (pi / 180)" unfolding u_def by (simp add: cos_sin_eq field_simps)
  have r0: "0 \<le> pi / 180" "pi / 180 \<le> 1" using pi_gt_zero pi_less_4 by auto
  have "pi / 180 / 2 \<le> cos u" unfolding cu by (rule sin_ge_half[OF r0])
  then have c1: "1 / 180 \<le> cos u" using pi_ge_two by linarith
  define e where "e = pi / 2 - \<theta>"
  have eq: "e - pi / 180 = - (\<theta> - u)" by (simp add: e_def u_def field_simps)
  have "\<bar>e - pi / 180\<bar> \<le> 1 / 100000000" unfolding eq abs_minus using a .
  then have e: "1 / 100 \<le> e" "e \<le> 1" using pi_ge_two pi_less_4 by linarith+
  have "cos \<theta> = sin e" by (simp add: e_def cos_sin_eq)
  moreover have "e / 2 \<le> sin e" using e by (intro sin_ge_half) auto
  ultimately have c2: "1 / 200 \<le> cos \<theta>" using e by linarith
  have "tan \<theta> - tan u = sin (\<theta> - u) / (cos \<theta> * cos u)"
    using c1 c2 by (intro tan_diff_sin) auto
  then have "\<bar>tan \<theta> - tan u\<bar> = \<bar>sin (\<theta> - u)\<bar> / (cos \<theta> * cos u)"
    using c1 c2 by (simp add: abs_divide abs_mult)
  also have "\<dots> \<le> \<bar>\<theta> - u\<bar> / (cos \<theta> * cos u)"
    using c1 c2 by (intro divide_right_mono abs_sin_x_le_abs_x) auto
  also have "\<dots> \<le> (1 / 100000000) / ((1 / 200) * (1 / 180))"
    using c1 c2 a by (intro frac_le mult_mono) auto
  also have "\<dots> \<le> 1 / 2000" by simp
  finally show ?thesis by (simp add: u_def)
qed

lemma pbc_out_of_limits:
  assumes a: "normalizeNumber fl angle_text 2 = Inr angle"
    and r: "\<not> isNaN angle" "\<not> lt angle (fl 1)" "\<not> gt angle (fl 89)"
    and n: "normalizeNumber fl nozzle_text 1 = Inr nozzle"
    and h: "normalizeNumber fl
        (mul fl
           (Math_tan fl
              (mul fl (if software = ''orca'' then angle else sub fl (fl 90) angle)
                 (divide_num fl (Math_PI fl) (fl 180))))
           (divide_num fl nozzle (fl 2))) 2 = Inr height"
    and f: "normalizeNumber fl height 2 = Inr height"
    and m: "normalizeNumber fl (mul fl nozzle (fl (8 / 10))) 2 = Inr maxHeight"
      "gt height maxHeight"
  shows "calculatePBC fl angle_text (Some software) (Some nozzle_text)
    = Inr (HeightOutOfBounds nozzle height)"
proof -
  obtain mn where mn: "normalizeNumber fl (mul fl nozzle (fl (2 / 10))) 2 = Inr mn"
    using normalizeNumber_result[of 2 fl] by auto
  obtain r1 where r1: "normalizeNumber fl
      (mul fl (Math_round (divide_num fl height (fl (2 / 100)))) (fl (2 / 100))) 2 = Inr r1"
    using normalizeNumber_result[of 2 fl] by auto
  obtain r2 where r2: "normalizeNumber fl r1 2 = Inr r2"
    using normalizeNumber_result[of 2 fl] by auto
  have c: "(isNaN angle \<or> lt angle (fl 1) \<or> gt angle (fl 89)) = False" using r by simp
  show ?thesis
    unfolding calculatePBC_def a n and_then_Inr checked_value.simps c if_False Let_def
      h f m(1) mn r1 r2
    using m(2) by simp
qed

lemma height_gap:
  "16 / 1000 + spec_layerHeight (88996 / 1000) (4 / 10)
     \<le> tan (89 * (pi / 180)) * (2 / 10) + 5 / 1000"
proof -
  define X where "X = tan (89 * (pi / 180))"
  define Y where "Y = tan (88996 / 1000 * pi / 180)"
  have g: "8 / 100 \<le> X - Y" using tan_gap_near_89 by (simp add: X_def Y_def)
  define W where "W = Y * (4 / 10 / 2)"
  have W: "W = Y * (2 / 10)" by (simp add: W_def)
  have S: "spec_layerHeight (88996 / 1000) (4 / 10) = normalized W 2"
    unfolding spec_layerHeight_def W_def Y_def ..
  have "\<bar>normalized W 2 - W\<bar> \<le> 1 / 200" using normalized_near[of W 2] by simp
  then have "normalized W 2 \<le> W + 5 / 1000" by linarith
  then have "spec_layerHeight (88996 / 1000) (4 / 10) \<le> Y * (2 / 10) + 5 / 1000"
    unfolding S W .
  moreover have "Y * (2 / 10) + 16 / 1000 \<le> X * (2 / 10)" using g by linarith
  ultimately show ?thesis unfolding X_def[symmetric] by linarith
qed

lemma angle_rounding_exact:
  "\<exists>v. calculatePBC exact (Fin (88996 / 1000)) (Some ''orca'') (Some (Fin (4 / 10)))
         = Inr (HeightOutOfBounds (Fin (4 / 10)) (Fin v))
       \<and> spec_layerHeight (88996 / 1000) (4 / 10) + 1 / 1000 < v"
proof -
  define X where "X = tan (89 * (pi / 180)) * (2 / 10)"
  define v where "v = normalized X 2"
  have Xr: "4 \<le> X" using tan_89_bounds(1) by (simp add: X_def)
  have vX: "\<bar>v - X\<bar> \<le> 1 / 200" using normalized_near[of X 2] by (simp add: v_def)
  have a: "normalizeNumber exact (Fin (88996 / 1000)) 2 = Inr (Fin 89)"
    by (simp add: eval_simps)
  have n: "normalizeNumber exact (Fin (4 / 10)) 1 = Inr (Fin (4 / 10))"
    by (simp add: eval_simps)
  have h: "normalizeNumber exact
        (mul exact
           (Math_tan exact
              (mul exact (if ''orca'' = ''orca'' then Fin 89 else sub exact (exact 90) (Fin 89))
                 (divide_num exact (Math_PI exact) (exact 180))))
           (divide_num exact (Fin (4 / 10)) (exact 2))) 2 = Inr (Fin v)"
    by (simp add: normalizeNumber_digits exact_def Math_PI_def v_def X_def)
  have f: "normalizeNumber exact (Fin v) 2 = Inr (Fin v)"
    by (simp add: normalizeNumber_digits exact_def v_def normalized_idem)
  have m: "normalizeNumber exact (mul exact (Fin (4 / 10)) (exact (8 / 10))) 2
      = Inr (Fin (32 / 100))"
    by (simp add: eval_simps)
  have "32 / 100 < v" using Xr vX by linarith
  then have g: "gt (Fin v) (Fin (32 / 100))" by (simp add: gt_def)
  have "calculatePBC exact (Fin (88996 / 1000)) (Some ''orca'') (Some (Fin (4 / 10)))
         = Inr (HeightOutOfBounds (Fin (4 / 10)) (Fin v))"
    by (rule pbc_out_of_limits[OF a _ _ _ n h f m g]) (simp_all add: exact_def gt_def)
  moreover have "spec_layerHeight (88996 / 1000) (4 / 10) + 1 / 1000 < v"
    using height_gap vX unfolding X_def[symmetric] by linarith
  ultimately show ?thesis by blast
qed

lemma angle_rounding_binary64:
  "\<exists>v. calculatePBC binary64 (Fin (88996 / 1000)) (Some ''orca'') (Some (Fin (4 / 10)))
         = Inr (HeightOutOfBounds (binary64 (4 / 10)) (Fin v))
       \<and> spec_layerHeight (88996 / 1000) (4 / 10) + 1 / 1000 < v"
proof -
  define T where "T = tan (89 * (pi / 180))"
  have Tr: "22 \<le> T" "T \<le> 180" using tan_89_bounds by (simp_all add: T_def)
  obtain \<theta> where th: "mul binary64 (Fin 89) (divide_num binary64 (binary64 pi) (Fin 180)) = Fin \<theta>"
      "\<bar>\<theta> - 89 * pi / 180\<bar> \<le> 1 / 10 ^ 8"
    using radians64_gen[of 89] by auto
  have "\<bar>\<theta> - 89 * (pi / 180)\<bar> \<le> 1 / 100000000" using th(2) by simp
  then have tT: "\<bar>tan \<theta> - T\<bar> \<le> 1 / 2000" unfolding T_def by (rule tan_near_89)
  then have tb: "21 \<le> tan \<theta>" "tan \<theta> \<le> 181" using Tr by linarith+
  then have tr: "1 / 1024 \<le> \<bar>tan \<theta>\<bar>" "\<bar>tan \<theta>\<bar> \<le> 2 ^ 20" by simp_all
  define t where "t = nearest64 (tan \<theta>)"
  have t: "binary64 (tan \<theta>) = Fin t" "\<bar>t - tan \<theta>\<bar> \<le> \<bar>tan \<theta>\<bar> / 10 ^ 9"
    using binary64_near(1)[OF tr] nearest64_rel_loose[OF tr(1)] by (simp_all add: t_def)
  have "\<bar>tan \<theta>\<bar> / 10 ^ 9 \<le> 181 / 10 ^ 9"
    using tb by (intro divide_right_mono) auto
  then have "\<bar>t - tan \<theta>\<bar> \<le> 1 / 1000000" using t(2) by simp
  then have t2: "\<bar>t - T\<bar> \<le> 6 / 10000" using tT by linarith
  define k where "k = nearest64 (1 / 5)"
  have k: "binary64 (1 / 5) = Fin k" "\<bar>k - 1 / 5\<bar> \<le> \<bar>1 / 5\<bar> / 10 ^ 9"
    using binary64_near(1)[of "1 / 5"] nearest64_rel_loose[of "1 / 5"] by (simp_all add: k_def)
  have k2: "\<bar>k - 1 / 5\<bar> \<le> 1 / 1000000000" using k(2) by simp
  have kr: "0 \<le> k" "k \<le> 1 / 4" using k2 by linarith+
  have "t * k - T * (1 / 5) = (t - T) * k + T * (k - 1 / 5)" by (simp add: algebra_simps)
  then have "\<bar>t * k - T * (1 / 5)\<bar> \<le> \<bar>(t - T) * k\<bar> + \<bar>T * (k - 1 / 5)\<bar>" by simp
  also have "\<dots> = \<bar>t - T\<bar> * k + T * \<bar>k - 1 / 5\<bar>" using kr Tr by (simp add: abs_mult)
  also have "\<dots> \<le> (6 / 10000) * (1 / 4) + 180 * (1 / 1000000000)"
    using t2 k2 kr Tr by (intro add_mono mult_mono) auto
  also have "\<dots> \<le> 2 / 10000" by simp
  finally have z: "\<bar>t * k - T * (1 / 5)\<bar> \<le> 2 / 10000" .
  have "22 * (1 / 5) \<le> T * (1 / 5)" "T * (1 / 5) \<le> 180 * (1 / 5)" using Tr by simp_all
  then have zr: "1 \<le> t * k" "t * k \<le> 1000" using z by linarith+
  obtain v where v: "normalizeNumber binary64 (binary64 (t * k)) 2 = Inr (Fin v)"
      "\<bar>v - t * k\<bar> \<le> 6 / 1000" "normalizeNumber binary64 (Fin v) 2 = Inr (Fin v)"
    using normalize64_near[OF zr] by blast
  have vr: "4 \<le> v" using v(2) z Tr by linarith
  have a: "normalizeNumber binary64 (Fin (88996 / 1000)) 2 = Inr (Fin 89)"
    by (simp add: eval_simps)
  have n: "normalizeNumber binary64 (Fin (4 / 10)) 1 = Inr (binary64 (4 / 10))"
    by (simp add: eval_simps)
  have d2: "divide_num binary64 (binary64 (4 / 10)) (binary64 2) = binary64 (1 / 5)"
    by (simp add: eval_simps)
  have h: "normalizeNumber binary64
        (mul binary64
           (Math_tan binary64
              (mul binary64
                 (if ''orca'' = ''orca'' then Fin 89 else sub binary64 (binary64 90) (Fin 89))
                 (divide_num binary64 (Math_PI binary64) (binary64 180))))
           (divide_num binary64 (binary64 (4 / 10)) (binary64 2))) 2 = Inr (Fin v)"
    unfolding d2 by (simp add: Math_PI_def binary64_small_integers th(1) t(1) k(1) v(1))
  define M :: real where "M = 5764607523034235 / 18014398509481984"
  have m: "normalizeNumber binary64 (mul binary64 (binary64 (4 / 10)) (binary64 (8 / 10))) 2
      = Inr (Fin M)"
    by (simp add: eval_simps M_def)
  have M: "M \<le> 1" by (simp add: M_def)
  have g: "gt (Fin v) (Fin M)" using vr M by (simp add: gt_def)
  have "calculatePBC binary64 (Fin (88996 / 1000)) (Some ''orca'') (Some (Fin (4 / 10)))
         = Inr (HeightOutOfBounds (binary64 (4 / 10)) (Fin v))"
    by (rule pbc_out_of_limits[OF a _ _ _ n h v(3) m g])
      (simp_all add: binary64_small_integers gt_def)
  moreover have "spec_layerHeight (88996 / 1000) (4 / 10) + 1 / 1000 < v"
    using height_gap v(2) z unfolding T_def[symmetric] by linarith
  ultimately show ?thesis by blast
qed

text \<open>The layer-height calculator on every accepted angle, in doubles.\<close>

lemma cos_near_quarter_turn:
  fixes \<theta> :: real
  assumes "0 \<le> \<theta>" "\<theta> \<le> pi / 2 - 1 / 100"
  shows "1 / 200 \<le> cos \<theta>"
proof -
  define e where "e = pi / 2 - \<theta>"
  have e: "1 / 100 \<le> e" "e \<le> 2" using assms pi_less_4 by (simp_all add: e_def)
  have c: "cos \<theta> = sin e" by (simp add: e_def cos_sin_eq)
  show ?thesis
  proof (cases "e \<le> 1")
    case True
    have "e / 2 \<le> sin e" using e True by (intro sin_ge_half) auto
    then show ?thesis using e c by linarith
  next
    case False
    have "cos \<theta> \<ge> cos (pi / 2 - 1)"
      using assms False pi_ge_3 by (intro cos_monotone_0_pi_le) (auto simp: e_def)
    moreover have "cos (pi / 2 - 1) = sin 1" by (simp add: cos_sin_eq)
    moreover have "(1::real) / 2 \<le> sin 1" using sin_ge_half[of 1] by simp
    ultimately show ?thesis by linarith
  qed
qed

lemma tan_close:
  fixes \<theta> \<theta>0 :: real
  assumes t0: "1 / 100 \<le> \<theta>0" "\<theta>0 \<le> pi / 2 - 1 / 100 - 1 / 1000"
    and t: "\<bar>\<theta> - \<theta>0\<bar> \<le> e" and e: "e \<le> 1 / 1000"
  shows "\<bar>tan \<theta> - tan \<theta>0\<bar> \<le> 40000 * e" "0 \<le> tan \<theta>0" "tan \<theta>0 \<le> 200"
proof -
  have e0: "0 \<le> e" using t by linarith
  have c0: "1 / 200 \<le> cos \<theta>0" using t0 by (intro cos_near_quarter_turn) auto
  have c1: "1 / 200 \<le> cos \<theta>" using t0 t e by (intro cos_near_quarter_turn) (auto simp: abs_le_iff)
  have "tan \<theta> - tan \<theta>0 = sin (\<theta> - \<theta>0) / (cos \<theta> * cos \<theta>0)"
    using c0 c1 by (intro tan_diff_sin) auto
  then have "\<bar>tan \<theta> - tan \<theta>0\<bar> = \<bar>sin (\<theta> - \<theta>0)\<bar> / (cos \<theta> * cos \<theta>0)"
    using c0 c1 by (simp add: abs_divide abs_mult)
  also have "\<dots> \<le> \<bar>\<theta> - \<theta>0\<bar> / (cos \<theta> * cos \<theta>0)"
    using c0 c1 by (intro divide_right_mono abs_sin_x_le_abs_x) auto
  also have "\<dots> \<le> e / ((1 / 200) * (1 / 200))"
    using c0 c1 t e0 by (intro frac_le mult_mono) auto
  finally show "\<bar>tan \<theta> - tan \<theta>0\<bar> \<le> 40000 * e" by simp
  have s0: "0 \<le> sin \<theta>0" using t0 pi_less_4 by (intro sin_ge_zero) auto
  then show "0 \<le> tan \<theta>0" using c0 by (simp add: tan_def)
  have "sin \<theta>0 / cos \<theta>0 \<le> 1 / (1 / 200)" using s0 c0 by (intro frac_le) auto
  then show "tan \<theta>0 \<le> 200" by (simp add: tan_def)
qed

lemma tan64:
  assumes e0: "1 \<le> e0" "e0 \<le> 89" and E: "\<bar>E - e0\<bar> \<le> 1 / 1000000000000"
  shows "\<exists>t. Math_tan binary64
               (mul binary64 (Fin E) (divide_num binary64 (binary64 pi) (Fin 180))) = Fin t
           \<and> \<bar>t - tan (e0 * pi / 180)\<bar> \<le> 1 / 1000000"
    and "0 \<le> tan (e0 * pi / 180)" "tan (e0 * pi / 180) \<le> 200"
proof -
  define \<theta>0 where "\<theta>0 = e0 * pi / 180"
  have Er: "0 \<le> E" "E \<le> 90" using e0 E by linarith+
  obtain \<theta> where th: "mul binary64 (Fin E) (divide_num binary64 (binary64 pi) (Fin 180)) = Fin \<theta>"
      "\<bar>\<theta> - E * pi / 180\<bar> \<le> 1 / 1000000000000"
    using radians64_abs[OF Er] by blast
  have eq: "E * pi / 180 - \<theta>0 = (E - e0) * (pi / 180)" by (simp add: \<theta>0_def algebra_simps)
  have "\<bar>E * pi / 180 - \<theta>0\<bar> = \<bar>E - e0\<bar> * (pi / 180)"
    unfolding eq by (rule abs_mult_pos[symmetric]) (use pi_ge_zero in simp)
  also have "\<dots> \<le> (1 / 1000000000000) * (4 / 180)"
    using E pi_less_4 pi_ge_zero by (intro mult_mono) auto
  finally have "\<bar>E * pi / 180 - \<theta>0\<bar> \<le> 1 / 1000000000000" by simp
  then have tt: "\<bar>\<theta> - \<theta>0\<bar> \<le> 2 / 1000000000000" using th(2) by linarith
  have "1 * (pi / 180) \<le> e0 * (pi / 180)" using e0 pi_ge_zero by (intro mult_right_mono) auto
  then have "pi / 180 \<le> \<theta>0" by (simp add: \<theta>0_def)
  then have lo: "1 / 100 \<le> \<theta>0" using pi_ge_3 by linarith
  have "e0 * (pi / 180) \<le> 89 * (pi / 180)" using e0 pi_ge_zero by (intro mult_right_mono) auto
  then have "\<theta>0 \<le> 89 * (pi / 180)" by (simp add: \<theta>0_def)
  then have hi: "\<theta>0 \<le> pi / 2 - 1 / 100 - 1 / 1000" using pi_ge_3 by linarith
  have tc: "\<bar>tan \<theta> - tan \<theta>0\<bar> \<le> 40000 * (2 / 1000000000000)" "0 \<le> tan \<theta>0" "tan \<theta>0 \<le> 200"
    using tan_close[OF lo hi tt] by simp_all
  show "0 \<le> tan (e0 * pi / 180)" "tan (e0 * pi / 180) \<le> 200"
    using tc(2,3) by (simp_all add: \<theta>0_def)
  have tb: "\<bar>tan \<theta>\<bar> \<le> 8000" using tc by linarith
  define t where "t = nearest64 (tan \<theta>)"
  have t: "binary64 (tan \<theta>) = Fin t" "\<bar>t - tan \<theta>\<bar> \<le> 1 / 1000000000000"
    using round64_8000(1,3)[OF tb] by (simp_all add: t_def)
  have "\<bar>t - tan \<theta>0\<bar> \<le> 1 / 1000000" using t(2) tc(1) by linarith
  then show "\<exists>t. Math_tan binary64
               (mul binary64 (Fin E) (divide_num binary64 (binary64 pi) (Fin 180))) = Fin t
           \<and> \<bar>t - tan (e0 * pi / 180)\<bar> \<le> 1 / 1000000"
    using th(1) t(1) unfolding \<theta>0_def by auto
qed

lemma nozzle64:
  fixes j :: int
  assumes "1 \<le> j" "j \<le> 20"
  shows "normalizeNumber binary64 (Fin (of_int j / 10)) 1 = Inr (Fin (nearest64 (of_int j / 10)))"
    and "\<bar>nearest64 (of_int j / 10) - of_int j / 10\<bar> \<le> 1 / 1000000000000000"
proof -
  have r: "(1::real) \<le> of_int j" "(of_int j :: real) \<le> 20" using assms by simp_all
  have b: "\<bar>of_int j / 10 :: real\<bar> \<le> 4" using r by simp
  show "\<bar>nearest64 (of_int j / 10) - of_int j / 10\<bar> \<le> 1 / 1000000000000000"
    by (rule round64_4(3)[OF b])
  have "normalizeNumber binary64 (binary64 (of_int j / 10)) (int 1)
      = Inr (Fin (nearest64 (of_int j / 10 ^ 1)))"
    by (rule normalize64_on_grid) (use b in simp_all)
  moreover have "normalizeNumber binary64 (Fin (of_int j / 10)) 1
      = normalizeNumber binary64 (binary64 (of_int j / 10)) 1"
    by (rule normalize64_text) (use b in simp)
  ultimately show "normalizeNumber binary64 (Fin (of_int j / 10)) 1
      = Inr (Fin (nearest64 (of_int j / 10)))"
    by simp
qed

lemma fiftieth64:
  "\<exists>c. binary64 (1 / 50) = Fin c \<and> \<bar>c - 1 / 50\<bar> \<le> 1 / 1000000000000000 \<and> 199 / 10000 \<le> c"
proof -
  have b: "\<bar>1 / 50 :: real\<bar> \<le> 4" by simp
  have "\<bar>nearest64 (1 / 50) - 1 / 50\<bar> \<le> 1 / 1000000000000000" by (rule round64_4(3)[OF b])
  moreover from this have "199 / 10000 \<le> nearest64 (1 / 50)" by linarith
  ultimately show ?thesis using round64_4(1)[OF b] by blast
qed

lemma round_to_step64:
  fixes k :: int
  assumes k: "\<bar>of_int k / 100 :: real\<bar> \<le> 7000"
  shows "\<exists>n. Math_round (divide_num binary64 (Fin (nearest64 (of_int k / 100))) (binary64 (1 / 50)))
             = Fin (of_int n)
           \<and> \<bar>2 * n - k\<bar> \<le> 1"
proof -
  define L :: real where "L = of_int k / 100"
  define v where "v = nearest64 L"
  have Lb: "\<bar>L\<bar> \<le> 8000" using k by (simp add: L_def)
  have v: "\<bar>v - L\<bar> \<le> 1 / 1000000000000" unfolding v_def by (rule round64_8000(3)[OF Lb])
  obtain c where c: "binary64 (1 / 50) = Fin c" "\<bar>c - 1 / 50\<bar> \<le> 1 / 1000000000000000"
      "199 / 10000 \<le> c"
    using fiftieth64 by blast
  have c0: "0 < c" "c \<noteq> 0" using c(3) by linarith+
  define y where "y = v / c"
  define h :: real where "h = of_int k / 2"
  have hL: "h = 50 * L" by (simp add: h_def L_def)
  have hb: "\<bar>h\<bar> \<le> 350000" using k by (simp add: h_def)
  have "v - h * c = (v - L) + h * (1 / 50 - c)" by (simp add: hL algebra_simps)
  then have "\<bar>v - h * c\<bar> \<le> \<bar>v - L\<bar> + \<bar>h * (1 / 50 - c)\<bar>" by simp
  also have "\<dots> = \<bar>v - L\<bar> + \<bar>h\<bar> * \<bar>c - 1 / 50\<bar>" by (simp add: abs_mult abs_minus_commute)
  also have "\<dots> \<le> 1 / 1000000000000 + 350000 * (1 / 1000000000000000)"
    using v hb c(2) by (intro add_mono mult_mono) auto
  also have "\<dots> \<le> 1 / 1000000000" by simp
  finally have num: "\<bar>v - h * c\<bar> \<le> 1 / 1000000000" .
  have "y - h = (v - h * c) / c" using c0 by (simp add: y_def field_simps)
  then have "\<bar>y - h\<bar> = \<bar>v - h * c\<bar> / c" using c0 by (simp add: abs_divide)
  also have "\<dots> \<le> (1 / 1000000000) / (199 / 10000)" using num c(3) by (intro frac_le) auto
  also have "\<dots> \<le> 1 / 10000000" by simp
  finally have yh: "\<bar>y - h\<bar> \<le> 1 / 10000000" .
  have yb: "\<bar>y\<bar> \<le> 30000000" using yh hb by linarith
  define Y where "Y = nearest64 y"
  have Y: "binary64 y = Fin Y" "\<bar>Y - y\<bar> \<le> 1 / 100000000"
    using round64_big(1,3)[OF yb] by (simp_all add: Y_def)
  have Yh: "\<bar>Y - h\<bar> \<le> 1 / 1000000" using Y(2) yh by linarith
  define n where "n = \<lfloor>Y + 1 / 2\<rfloor>"
  have fl: "of_int n \<le> Y + 1 / 2" "Y + 1 / 2 < of_int n + 1"
    unfolding n_def by linarith+
  have "2 * (of_int n :: real) < of_int k + 2" "(of_int k :: real) - 2 < 2 * of_int n"
    using fl Yh unfolding h_def by linarith+
  then have "(of_int (2 * n) :: real) < of_int (k + 2)" "(of_int (k - 2) :: real) < of_int (2 * n)"
    by simp_all
  then have "2 * n < k + 2" "k - 2 < 2 * n" by (simp_all only: of_int_less_iff)
  then have "\<bar>2 * n - k\<bar> \<le> 1" by linarith
  moreover have "Math_round (divide_num binary64 (Fin (nearest64 (of_int k / 100)))
      (binary64 (1 / 50))) = Fin (of_int n)"
    using c0 by (simp add: c(1) L_def[symmetric] v_def[symmetric] y_def[symmetric] Y(1) n_def)
  ultimately show ?thesis by blast
qed

lemma on_step64:
  fixes k n :: int
  assumes k: "\<bar>of_int k / 100 :: real\<bar> \<le> 7000" and n: "\<bar>2 * n - k\<bar> \<le> 1"
  shows "lt (Math_abs (sub binary64 (Fin (nearest64 (of_int k / 100)))
              (Fin (nearest64 (of_int (2 * n) / 100))))) (binary64 (1 / 1000))
    \<longleftrightarrow> even k"
proof -
  define L :: real where "L = of_int k / 100"
  define M :: real where "M = of_int (2 * n) / 100"
  have Lb: "\<bar>L\<bar> \<le> 8000" using k by (simp add: L_def)
  have "\<bar>M - L\<bar> \<le> 1 / 100"
  proof -
    have "k - 1 \<le> 2 * n" "2 * n \<le> k + 1" using n by linarith+
    then have "(of_int (k - 1) :: real) \<le> of_int (2 * n)" "(of_int (2 * n) :: real) \<le> of_int (k + 1)"
      by (simp_all only: of_int_le_iff)
    then have "(of_int k :: real) - 1 \<le> of_int (2 * n)" "(of_int (2 * n) :: real) \<le> of_int k + 1"
      by simp_all
    then show ?thesis unfolding M_def L_def by linarith
  qed
  then have Mb: "\<bar>M\<bar> \<le> 8000" using k unfolding L_def by linarith
  have v: "\<bar>nearest64 L - L\<bar> \<le> 1 / 1000000000000" by (rule round64_8000(3)[OF Lb])
  have w: "\<bar>nearest64 M - M\<bar> \<le> 1 / 1000000000000" by (rule round64_8000(3)[OF Mb])
  have c3b: "\<bar>1 / 1000 :: real\<bar> \<le> 4" by simp
  define c3 where "c3 = nearest64 (1 / 1000)"
  have c3: "binary64 (1 / 1000) = Fin c3" "\<bar>c3 - 1 / 1000\<bar> \<le> 1 / 1000000000000000"
    using round64_4(1,3)[OF c3b] by (simp_all add: c3_def)
  have c3r: "0 < c3" "c3 \<le> 2 / 1000" using c3(2) by linarith+
  define \<delta> where "\<delta> = nearest64 L - nearest64 M"
  have db: "\<bar>\<delta>\<bar> \<le> 4" using v w \<open>\<bar>M - L\<bar> \<le> 1 / 100\<close> unfolding \<delta>_def by linarith
  define D where "D = nearest64 \<delta>"
  have D: "binary64 \<delta> = Fin D" "\<bar>D - \<delta>\<bar> \<le> 1 / 1000000000000000"
    using round64_4(1,3)[OF db] by (simp_all add: D_def)
  have eval: "lt (Math_abs (sub binary64 (Fin (nearest64 (of_int k / 100)))
              (Fin (nearest64 (of_int (2 * n) / 100))))) (binary64 (1 / 1000))
      \<longleftrightarrow> \<bar>D\<bar> < c3"
    unfolding L_def[symmetric] M_def[symmetric]
    by (simp add: sub_def \<delta>_def[symmetric] D(1) c3(1))
  show ?thesis
  proof (cases "even k")
    case True
    then have "2 * n = k" using n by presburger
    then have "\<delta> = 0" by (simp add: \<delta>_def L_def M_def)
    then have "D = 0" by (simp add: D_def nearest64_def)
    then show ?thesis using eval c3r True by simp
  next
    case False
    then have "2 * n \<noteq> k" by presburger
    then have "2 * n - k = 1 \<or> 2 * n - k = - 1" using n by linarith
    then have "M - L = 1 / 100 \<or> M - L = - (1 / 100)"
    proof
      assume "2 * n - k = 1"
      then have "2 * n = k + 1" by simp
      then have "of_int (2 * n) = (of_int (k + 1) :: real)" by (simp only:)
      then have "M = L + 1 / 100" unfolding M_def L_def by simp
      then show ?thesis by simp
    next
      assume "2 * n - k = - 1"
      then have "2 * n = k - 1" by simp
      then have "of_int (2 * n) = (of_int (k - 1) :: real)" by (simp only:)
      then have "M = L - 1 / 100" unfolding M_def L_def by simp
      then show ?thesis by simp
    qed
    then have "99 / 10000 \<le> \<bar>\<delta>\<bar>" using v w unfolding \<delta>_def by linarith
    then have "c3 \<le> \<bar>D\<bar>" using D(2) c3r by linarith
    then show ?thesis using eval False by simp
  qed
qed

lemma pbc_shape:
  assumes a: "normalizeNumber fl angle_text 2 = Inr angle"
    and r: "\<not> isNaN angle" "\<not> lt angle (fl 1)" "\<not> gt angle (fl 89)"
    and n: "normalizeNumber fl nozzle_text 1 = Inr nozzle"
    and h: "normalizeNumber fl
        (mul fl
           (Math_tan fl
              (mul fl (if software = ''orca'' then angle else sub fl (fl 90) angle)
                 (divide_num fl (Math_PI fl) (fl 180))))
           (divide_num fl nozzle (fl 2))) 2 = Inr height"
    and f: "normalizeNumber fl height 2 = Inr height"
    and mn: "normalizeNumber fl (mul fl nozzle (fl (2 / 10))) 2 = Inr minHeight"
    and mx: "normalizeNumber fl (mul fl nozzle (fl (8 / 10))) 2 = Inr maxHeight"
    and r1: "normalizeNumber fl
        (mul fl (Math_round (divide_num fl height (fl (2 / 100)))) (fl (2 / 100))) 2
        = Inr roundedHeight"
    and r2: "normalizeNumber fl roundedHeight 2 = Inr roundedHeight"
  shows "calculatePBC fl angle_text (Some software) (Some nozzle_text)
    = (if \<not> lt (Math_abs (sub fl height roundedHeight)) (fl (1 / 1000))
          \<or> (lt height minHeight \<or> gt height maxHeight)
       then Inr (HeightOutOfBounds nozzle height)
       else Inr (HeightValid nozzle height))"
proof -
  have c: "(isNaN angle \<or> lt angle (fl 1) \<or> gt angle (fl 89)) = False" using r by simp
  show ?thesis
    unfolding calculatePBC_def a n and_then_Inr checked_value.simps c if_False Let_def
      h f mn mx r1 r2
    by (rule refl)
qed

lemma effective_angle64:
  assumes a: "1 \<le> a" "a \<le> 89"
  shows "\<exists>E. (if software = ''orca'' then Fin a else sub binary64 (binary64 90) (Fin a)) = Fin E
           \<and> \<bar>E - (if software = ''orca'' then a else 90 - a)\<bar> \<le> 1 / 1000000000000"
proof (cases "software = ''orca''")
  case True
  then show ?thesis by simp
next
  case False
  have b: "\<bar>90 - a\<bar> \<le> 8000" using a by simp
  have "binary64 (90 - a) = Fin (nearest64 (90 - a))"
      "\<bar>nearest64 (90 - a) - (90 - a)\<bar> \<le> 1 / 1000000000000"
    using round64_8000(1,3)[OF b] by simp_all
  then show ?thesis using False by (simp add: sub_def binary64_small_integers)
qed

lemma scaled_nozzle64:
  fixes j m :: int
  assumes j: "1 \<le> j" "j \<le> 20" and m: "1 \<le> m" "m \<le> 10"
  shows "normalizeNumber binary64
           (mul binary64 (Fin (nearest64 (of_int j / 10))) (binary64 (of_int m / 10))) 2
         = Inr (Fin (nearest64 (of_int (m * j) / 100)))"
proof -
  have r: "(1::real) \<le> of_int j" "(of_int j :: real) \<le> 20" using j by simp_all
  have rm: "(1::real) \<le> of_int m" "(of_int m :: real) \<le> 10" using m by simp_all
  have b: "\<bar>of_int j / 10 :: real\<bar> \<le> 4" using r by simp
  have bm: "\<bar>of_int m / 10 :: real\<bar> \<le> 4" using rm by simp
  define D where "D = nearest64 (of_int j / 10)"
  define c where "c = nearest64 (of_int m / 10)"
  have D: "\<bar>D - of_int j / 10\<bar> \<le> 1 / 1000000000000000"
    unfolding D_def by (rule round64_4(3)[OF b])
  have c: "binary64 (of_int m / 10) = Fin c" "\<bar>c - of_int m / 10\<bar> \<le> 1 / 1000000000000000"
    using round64_4(1,3)[OF bm] by (simp_all add: c_def)
  have "normalizeNumber binary64 (binary64 (D * c)) 2
      = Inr (Fin (nearest64 (of_int (m * j) / 100)))"
  proof (rule product_on_grid[where X = "of_int j / 10" and Y = "of_int m / 10"])
    show "\<bar>D - of_int j / 10\<bar> \<le> 1 / 1000000000000" using D by linarith
    show "\<bar>c - of_int m / 10\<bar> \<le> 1 / 1000000000000" using c(2) by linarith
    show "\<bar>of_int j / 10 :: real\<bar> \<le> 20000" using b by linarith
    show "\<bar>of_int m / 10 :: real\<bar> \<le> 1" using rm by simp
    show "of_int j / 10 * (of_int m / 10) = (of_int (m * j) / 100 :: real)" by simp
  qed
  then show ?thesis by (simp add: D_def[symmetric] c(1))
qed

lemma rounded_height64:
  fixes k :: int
  assumes k: "\<bar>of_int k / 100 :: real\<bar> \<le> 300"
  shows "\<exists>n. normalizeNumber binary64
             (mul binary64
                (Math_round (divide_num binary64 (Fin (nearest64 (of_int k / 100)))
                   (binary64 (2 / 100))))
                (binary64 (2 / 100))) 2
             = Inr (Fin (nearest64 (of_int (2 * n) / 100)))
           \<and> \<bar>2 * n - k\<bar> \<le> 1"
proof -
  obtain n where n: "Math_round (divide_num binary64 (Fin (nearest64 (of_int k / 100)))
        (binary64 (1 / 50))) = Fin (of_int n)" "\<bar>2 * n - k\<bar> \<le> 1"
    using round_to_step64[of k] k by auto
  obtain c where c: "binary64 (1 / 50) = Fin c" "\<bar>c - 1 / 50\<bar> \<le> 1 / 1000000000000000"
    using fiftieth64 by blast
  have "\<bar>of_int k :: real\<bar> \<le> 30000" using k by simp
  then have "\<bar>k\<bar> \<le> 30000" by linarith
  then have "\<bar>n\<bar> \<le> 20000" using n(2) by linarith
  then have nb: "\<bar>of_int n :: real\<bar> \<le> 20000" by linarith
  have "normalizeNumber binary64 (binary64 (of_int n * c)) 2
      = Inr (Fin (nearest64 (of_int (2 * n) / 100)))"
  proof (rule product_on_grid[where X = "of_int n" and Y = "1 / 50"])
    show "\<bar>of_int n - (of_int n :: real)\<bar> \<le> 1 / 1000000000000" by simp
    show "\<bar>c - 1 / 50\<bar> \<le> 1 / 1000000000000" using c(2) by linarith
    show "\<bar>of_int n :: real\<bar> \<le> 20000" by (rule nb)
    show "\<bar>1 / 50 :: real\<bar> \<le> 1" by simp
    show "of_int n * (1 / 50) = (of_int (2 * n) / 100 :: real)" by simp
  qed
  then show ?thesis using n by (simp add: c(1)) blast
qed

lemma pbc64_grid:
  fixes j :: int
  assumes a: "normalizeNumber binary64 a_text 2 = Inr (Fin a)" "1 \<le> a" "a \<le> 89"
    and j: "1 \<le> j" "j \<le> 20"
  shows "\<exists>k. \<bar>of_int k / 100
               - tan ((if software = ''orca'' then a else 90 - a) * pi / 180) * (of_int j / 10 / 2)\<bar>
             \<le> 51 / 10000
         \<and> \<bar>of_int k / 100 :: real\<bar> \<le> 300
         \<and> calculatePBC binary64 a_text (Some software) (Some (Fin (of_int j / 10)))
           = (if even k \<and> 2 * j \<le> k \<and> k \<le> 8 * j
              then Inr (HeightValid (Fin (nearest64 (of_int j / 10)))
                     (Fin (nearest64 (of_int k / 100))))
              else Inr (HeightOutOfBounds (Fin (nearest64 (of_int j / 10)))
                     (Fin (nearest64 (of_int k / 100)))))"
proof -
  define e0 where "e0 = (if software = ''orca'' then a else 90 - a)"
  have e0: "1 \<le> e0" "e0 \<le> 89" using a(2,3) by (simp_all add: e0_def)
  obtain E where E: "(if software = ''orca'' then Fin a else sub binary64 (binary64 90) (Fin a))
        = Fin E" "\<bar>E - e0\<bar> \<le> 1 / 1000000000000"
    using effective_angle64[OF a(2,3), of software] unfolding e0_def by blast
  define T0 where "T0 = tan (e0 * pi / 180)"
  obtain t where t: "Math_tan binary64
        (mul binary64 (Fin E) (divide_num binary64 (binary64 pi) (Fin 180))) = Fin t"
      "\<bar>t - T0\<bar> \<le> 1 / 1000000"
    using tan64(1)[OF e0 E(2)] unfolding T0_def by blast
  have T0: "0 \<le> T0" "T0 \<le> 200" using tan64(2,3)[OF e0 E(2)] by (simp_all add: T0_def)
  have r: "(1::real) \<le> of_int j" "(of_int j :: real) \<le> 20" using j by simp_all
  define d :: real where "d = of_int j / 10"
  define D where "D = nearest64 d"
  have dr: "1 / 10 \<le> d" "d \<le> 2" using r by (simp_all add: d_def)
  have n: "normalizeNumber binary64 (Fin d) 1 = Inr (Fin D)"
    and Dd: "\<bar>D - d\<bar> \<le> 1 / 1000000000000000"
    using nozzle64[OF j] by (simp_all add: d_def D_def)
  have wb: "\<bar>D / 2\<bar> \<le> 4" using Dd dr by linarith
  define W where "W = nearest64 (D / 2)"
  have W: "binary64 (D / 2) = Fin W" "\<bar>W - D / 2\<bar> \<le> 1 / 1000000000000000"
    using round64_4(1,3)[OF wb] by (simp_all add: W_def)
  have Wd: "\<bar>W - d / 2\<bar> \<le> 2 / 1000000000000000" "0 \<le> W" "W \<le> 11 / 10"
    using W(2) Dd dr by linarith+
  define z where "z = t * W"
  have "z - T0 * (d / 2) = (t - T0) * W + T0 * (W - d / 2)" by (simp add: z_def algebra_simps)
  then have "\<bar>z - T0 * (d / 2)\<bar> \<le> \<bar>(t - T0) * W\<bar> + \<bar>T0 * (W - d / 2)\<bar>" by simp
  also have "\<dots> = \<bar>t - T0\<bar> * W + T0 * \<bar>W - d / 2\<bar>" using Wd(2) T0(1) by (simp add: abs_mult)
  also have "\<dots> \<le> (1 / 1000000) * (11 / 10) + 200 * (2 / 1000000000000000)"
    using t(2) Wd T0 by (intro add_mono mult_mono) auto
  also have "\<dots> \<le> 2 / 1000000" by simp
  finally have zT: "\<bar>z - T0 * (d / 2)\<bar> \<le> 2 / 1000000" .
  have "T0 * (d / 2) \<le> 200 * 1" using T0 dr by (intro mult_mono) auto
  moreover have "0 \<le> T0 * (d / 2)" using T0 dr by simp
  ultimately have zb: "\<bar>z\<bar> \<le> 201" using zT by linarith
  then have zb': "\<bar>z\<bar> \<le> 7000" by simp
  obtain k where k: "normalizeNumber binary64 (binary64 z) 2
        = Inr (Fin (nearest64 (of_int k / 100)))"
      "\<bar>of_int k / 100 - z\<bar> \<le> 5000001 / 1000000000"
    using normalize64_round[OF zb'] by blast
  define v where "v = nearest64 (of_int k / 100)"
  have kT: "\<bar>of_int k / 100 - T0 * (d / 2)\<bar> \<le> 51 / 10000" using k(2) zT by linarith
  have kb: "\<bar>of_int k / 100 :: real\<bar> \<le> 300" using k(2) zb by linarith
  have kb1: "\<bar>of_int k / 100 :: real\<bar> \<le> 7000" using kb by simp
  have kb2: "\<bar>of_int k / 100 :: real\<bar> \<le> 20000" using kb by simp
  have kb3: "\<bar>of_int k / 100 :: real\<bar> \<le> 30000000" using kb by simp
  have h: "normalizeNumber binary64
        (mul binary64
           (Math_tan binary64
              (mul binary64
                 (if software = ''orca'' then Fin a else sub binary64 (binary64 90) (Fin a))
                 (divide_num binary64 (Math_PI binary64) (binary64 180))))
           (divide_num binary64 (Fin D) (binary64 2))) 2 = Inr (Fin v)"
    unfolding E(1)
    by (simp add: Math_PI_def binary64_small_integers t(1) W(1) z_def[symmetric] k(1) v_def)
  have f: "normalizeNumber binary64 (Fin v) 2 = Inr (Fin v)"
    unfolding v_def by (rule decimal64_idem[OF kb2])
  have mn: "normalizeNumber binary64 (mul binary64 (Fin D) (binary64 (2 / 10))) 2
      = Inr (Fin (nearest64 (of_int (2 * j) / 100)))"
    using scaled_nozzle64[OF j, of 2] by (simp add: D_def d_def)
  have mx: "normalizeNumber binary64 (mul binary64 (Fin D) (binary64 (8 / 10))) 2
      = Inr (Fin (nearest64 (of_int (8 * j) / 100)))"
    using scaled_nozzle64[OF j, of 8] by (simp add: D_def d_def)
  obtain m where m: "normalizeNumber binary64
        (mul binary64 (Math_round (divide_num binary64 (Fin v) (binary64 (2 / 100))))
           (binary64 (2 / 100))) 2
        = Inr (Fin (nearest64 (of_int (2 * m) / 100)))" "\<bar>2 * m - k\<bar> \<le> 1"
    using rounded_height64[OF kb] unfolding v_def by blast
  have mb: "\<bar>of_int (2 * m) / 100 :: real\<bar> \<le> 20000"
  proof -
    have "k - 1 \<le> 2 * m" "2 * m \<le> k + 1" using m(2) by linarith+
    then have "(of_int (k - 1) :: real) \<le> of_int (2 * m)" "(of_int (2 * m) :: real) \<le> of_int (k + 1)"
      by (simp_all only: of_int_le_iff)
    then have "(of_int k :: real) - 1 \<le> of_int (2 * m)" "(of_int (2 * m) :: real) \<le> of_int k + 1"
      by simp_all
    then show ?thesis using kb by linarith
  qed
  have r2: "normalizeNumber binary64 (Fin (nearest64 (of_int (2 * m) / 100))) 2
      = Inr (Fin (nearest64 (of_int (2 * m) / 100)))"
    by (rule decimal64_idem[OF mb])
  have within: "lt (Math_abs (sub binary64 (Fin v) (Fin (nearest64 (of_int (2 * m) / 100)))))
      (binary64 (1 / 1000)) \<longleftrightarrow> even k"
    unfolding v_def by (rule on_step64[OF kb1 m(2)])
  have jb: "\<bar>of_int (2 * j) / 100 :: real\<bar> \<le> 30000000" "\<bar>of_int (8 * j) / 100 :: real\<bar> \<le> 30000000"
    using r by simp_all
  have low: "lt (Fin v) (Fin (nearest64 (of_int (2 * j) / 100))) \<longleftrightarrow> k < 2 * j"
    unfolding v_def using decimal64_less[OF kb3 jb(1)] by simp
  have high: "gt (Fin v) (Fin (nearest64 (of_int (8 * j) / 100))) \<longleftrightarrow> 8 * j < k"
    unfolding v_def gt_def using decimal64_less[OF jb(2) kb3] by simp
  have "calculatePBC binary64 a_text (Some software) (Some (Fin d))
    = (if \<not> lt (Math_abs (sub binary64 (Fin v) (Fin (nearest64 (of_int (2 * m) / 100)))))
             (binary64 (1 / 1000))
          \<or> (lt (Fin v) (Fin (nearest64 (of_int (2 * j) / 100)))
              \<or> gt (Fin v) (Fin (nearest64 (of_int (8 * j) / 100))))
       then Inr (HeightOutOfBounds (Fin D) (Fin v))
       else Inr (HeightValid (Fin D) (Fin v)))"
    by (rule pbc_shape[OF a(1) _ _ _ n h f mn mx m(1) r2])
      (use a(2,3) in \<open>simp_all add: binary64_small_integers gt_def\<close>)
  then have "calculatePBC binary64 a_text (Some software) (Some (Fin d))
    = (if even k \<and> 2 * j \<le> k \<and> k \<le> 8 * j
       then Inr (HeightValid (Fin D) (Fin v))
       else Inr (HeightOutOfBounds (Fin D) (Fin v)))"
    unfolding within low high by auto
  then show ?thesis using kT kb unfolding d_def D_def v_def T0_def e0_def by blast
qed

lemma valid_height_iff:
  fixes j k :: int
  shows "(2 / 10 * (of_int j / 10) \<le> (of_int k / 100 :: real)
           \<and> (of_int k / 100 :: real) \<le> 8 / 10 * (of_int j / 10))
         \<and> (\<exists>n::int. \<bar>of_int k / 100 - of_int n * (2 / 100)\<bar> < (1 / 1000 :: real))
     \<longleftrightarrow> even k \<and> 2 * j \<le> k \<and> k \<le> 8 * j"
proof -
  have a: "2 / 10 * (of_int j / 10) \<le> (of_int k / 100 :: real) \<longleftrightarrow> 2 * j \<le> k"
  proof -
    have "2 / 10 * (of_int j / 10) \<le> (of_int k / 100 :: real)
        \<longleftrightarrow> (of_int (2 * j) :: real) \<le> of_int k" by simp
    then show ?thesis by (simp only: of_int_le_iff)
  qed
  have b: "(of_int k / 100 :: real) \<le> 8 / 10 * (of_int j / 10) \<longleftrightarrow> k \<le> 8 * j"
  proof -
    have "(of_int k / 100 :: real) \<le> 8 / 10 * (of_int j / 10)
        \<longleftrightarrow> (of_int k :: real) \<le> of_int (8 * j)" by simp
    then show ?thesis by (simp only: of_int_le_iff)
  qed
  have c: "(\<exists>n::int. \<bar>of_int k / 100 - of_int n * (2 / 100)\<bar> < (1 / 1000 :: real)) \<longleftrightarrow> even k"
  proof
    assume "\<exists>n::int. \<bar>of_int k / 100 - of_int n * (2 / 100)\<bar> < (1 / 1000 :: real)"
    then obtain n :: int where n: "\<bar>of_int k / 100 - of_int n * (2 / 100)\<bar> < (1 / 1000 :: real)"
      by blast
    then have "(of_int k :: real) - 2 * of_int n < 1" "- 1 < (of_int k :: real) - 2 * of_int n"
      by linarith+
    then have "(of_int (k - 2 * n) :: real) < of_int 1" "(of_int (- 1) :: real) < of_int (k - 2 * n)"
      by simp_all
    then have "k - 2 * n < 1" "- 1 < k - 2 * n" by (simp_all only: of_int_less_iff)
    then have "k = 2 * n" by linarith
    then show "even k" by simp
  next
    assume "even k"
    then obtain n where "k = 2 * n" by (rule evenE)
    then have "\<bar>of_int k / 100 - of_int n * (2 / 100)\<bar> < (1 / 1000 :: real)" by simp
    then show "\<exists>n::int. \<bar>of_int k / 100 - of_int n * (2 / 100)\<bar> < (1 / 1000 :: real)" by blast
  qed
  show ?thesis unfolding a b c by blast
qed

lemma pbc64_close:
  fixes j :: int
  assumes a: "normalizeNumber binary64 a_text 2 = Inr (Fin a)" "1 \<le> a" "a \<le> 89"
    and j: "1 \<le> j" "j \<le> 20"
  shows "\<exists>k::int.
      \<bar>of_int k / 100
         - tan ((if software = ''orca'' then a else 90 - a) * pi / 180) * (of_int j / 10 / 2)\<bar>
        \<le> 51 / 10000
      \<and> calculatePBC binary64 a_text (Some software) (Some (Fin (of_int j / 10)))
        = (if (2 / 10 * (of_int j / 10) \<le> (of_int k / 100 :: real)
                 \<and> (of_int k / 100 :: real) \<le> 8 / 10 * (of_int j / 10))
              \<and> (\<exists>n::int. \<bar>of_int k / 100 - of_int n * (2 / 100)\<bar> < (1 / 1000 :: real))
           then Inr (HeightValid (binary64 (of_int j / 10)) (binary64 (of_int k / 100)))
           else Inr (HeightOutOfBounds (binary64 (of_int j / 10)) (binary64 (of_int k / 100))))"
proof -
  obtain k where k: "\<bar>of_int k / 100
               - tan ((if software = ''orca'' then a else 90 - a) * pi / 180) * (of_int j / 10 / 2)\<bar>
             \<le> 51 / 10000"
    "\<bar>of_int k / 100 :: real\<bar> \<le> 300"
    "calculatePBC binary64 a_text (Some software) (Some (Fin (of_int j / 10)))
           = (if even k \<and> 2 * j \<le> k \<and> k \<le> 8 * j
              then Inr (HeightValid (Fin (nearest64 (of_int j / 10)))
                     (Fin (nearest64 (of_int k / 100))))
              else Inr (HeightOutOfBounds (Fin (nearest64 (of_int j / 10)))
                     (Fin (nearest64 (of_int k / 100)))))"
    using pbc64_grid[OF a j, of software] by blast
  have r: "(1::real) \<le> of_int j" "(of_int j :: real) \<le> 20" using j by simp_all
  have kb: "\<bar>of_int k / 100 :: real\<bar> \<le> 30000000" using k(2) by linarith
  have jb: "\<bar>of_int j / 10 :: real\<bar> \<le> 30000000" using r by simp
  have bk: "binary64 (of_int k / 100) = Fin (nearest64 (of_int k / 100))"
    by (rule round64_big(1)[OF kb])
  have bj: "binary64 (of_int j / 10) = Fin (nearest64 (of_int j / 10))"
    by (rule round64_big(1)[OF jb])
  show ?thesis
  proof (intro exI[of _ k] conjI)
    show "\<bar>of_int k / 100
         - tan ((if software = ''orca'' then a else 90 - a) * pi / 180) * (of_int j / 10 / 2)\<bar>
        \<le> 51 / 10000"
      by (rule k(1))
    show "calculatePBC binary64 a_text (Some software) (Some (Fin (of_int j / 10)))
        = (if (2 / 10 * (of_int j / 10) \<le> (of_int k / 100 :: real)
                 \<and> (of_int k / 100 :: real) \<le> 8 / 10 * (of_int j / 10))
              \<and> (\<exists>n::int. \<bar>of_int k / 100 - of_int n * (2 / 100)\<bar> < (1 / 1000 :: real))
           then Inr (HeightValid (binary64 (of_int j / 10)) (binary64 (of_int k / 100)))
           else Inr (HeightOutOfBounds (binary64 (of_int j / 10)) (binary64 (of_int k / 100))))"
      unfolding valid_height_iff bk bj by (rule k(3))
  qed
qed

text \<open>
  C3, in doubles. Let \<open>a\<close> be the angle as the calculator reads it, the typed value normalised
  to two decimals, with \<open>a\<close> from 1 to 89, and let the checked nozzle diameter \<open>d\<close> be one of
  0.1, 0.2, ..., 2.0. The effective angle is \<open>a\<close> under the Orca convention and \<open>90 - a\<close>
  otherwise. The calculator shows a layer height \<open>L\<close> of two decimals within 0.0051 of the
  tangent of the effective angle in radians times \<open>d / 2\<close>, and marks it valid exactly when
  \<open>L\<close> lies between \<open>0.2 d\<close> and \<open>0.8 d\<close> and within 0.001 of a multiple of 0.02. An angle of 45
  under the Orca convention with a nozzle of 0.4 gives 0.2, marked valid.
\<close>

theorem layer_height_close_to_formula:
  "(normalizeNumber binary64 a_text 2 = Inr (Fin a) \<and> 1 \<le> a \<and> a \<le> 89
      \<and> (1::int) \<le> j \<and> j \<le> 20
    \<longrightarrow> (\<exists>k::int.
          \<bar>of_int k / 100
             - tan ((if software = ''orca'' then a else 90 - a) * pi / 180)
                 * (of_int j / 10 / 2)\<bar>
            \<le> 51 / 10000
          \<and> calculatePBC binary64 a_text (Some software) (Some (Fin (of_int j / 10)))
            = (if (2 / 10 * (of_int j / 10) \<le> (of_int k / 100 :: real)
                     \<and> (of_int k / 100 :: real) \<le> 8 / 10 * (of_int j / 10))
                  \<and> (\<exists>n::int. \<bar>of_int k / 100 - of_int n * (2 / 100)\<bar> < (1 / 1000 :: real))
               then Inr (HeightValid (binary64 (of_int j / 10)) (binary64 (of_int k / 100)))
               else Inr (HeightOutOfBounds (binary64 (of_int j / 10))
                      (binary64 (of_int k / 100))))))
   \<and> calculatePBC binary64 (Fin 45) (Some ''orca'') (Some (Fin (4 / 10)))
       = Inr (HeightValid (binary64 (4 / 10)) (binary64 (2 / 10)))"
  using pbc64_close[of a_text a j software] pbc_45_binary64
  by blast

theorem layer_height_close_to_formula_witness:
  "normalizeNumber binary64 (Fin 30) 2 = Inr (Fin 30)
   \<and> (\<exists>k::int.
          \<bar>of_int k / 100 - tan ((90 - 30) * pi / 180) * (of_int 4 / 10 / 2)\<bar> \<le> 51 / 10000
          \<and> calculatePBC binary64 (Fin 30) (Some ''cura'') (Some (Fin (of_int 4 / 10)))
            = (if (2 / 10 * (of_int 4 / 10) \<le> (of_int k / 100 :: real)
                     \<and> (of_int k / 100 :: real) \<le> 8 / 10 * (of_int 4 / 10))
                  \<and> (\<exists>n::int. \<bar>of_int k / 100 - of_int n * (2 / 100)\<bar> < (1 / 1000 :: real))
               then Inr (HeightValid (binary64 (of_int 4 / 10)) (binary64 (of_int k / 100)))
               else Inr (HeightOutOfBounds (binary64 (of_int 4 / 10))
                      (binary64 (of_int k / 100)))))"
proof -
  have a: "normalizeNumber binary64 (Fin 30) 2 = Inr (Fin 30)"
    by (simp add: eval_simps)
  show ?thesis
    using a
      layer_height_close_to_formula
        [where a_text = "Fin 30" and a = 30 and j = 4 and software = "''cura''"]
    by simp
qed

text \<open>
  C3 as stated fails: the angle 88.996 lies between 1 and 89 and is normalised to 89 before
  the tangent is taken; under the Orca convention with a nozzle of 0.4 the height shown is
  the one of 89 degrees, more than a thousandth above the specification's height for 88.996
  degrees, in exact arithmetic and in doubles.
\<close>

theorem angle_rounding_changes_height:
  "(\<exists>v. calculatePBC exact (Fin (88996 / 1000)) (Some ''orca'') (Some (Fin (4 / 10)))
          = Inr (HeightOutOfBounds (Fin (4 / 10)) (Fin v))
        \<and> spec_layerHeight (88996 / 1000) (4 / 10) + 1 / 1000 < v)
   \<and> (\<exists>v. calculatePBC binary64 (Fin (88996 / 1000)) (Some ''orca'') (Some (Fin (4 / 10)))
          = Inr (HeightOutOfBounds (binary64 (4 / 10)) (Fin v))
        \<and> spec_layerHeight (88996 / 1000) (4 / 10) + 1 / 1000 < v)"
  using angle_rounding_exact angle_rounding_binary64 by blast

section \<open>The flow calculator in doubles\<close>

lemma push_measurements_numbers:
  assumes "list_all2 (\<lambda>t x. normalizeNumber fl t 2 = Inr (Fin x)) texts xs"
  shows "push_measurements fl texts = Inr (map Fin xs)"
  using assms by (induction rule: list_all2_induct) simp_all

lemma foldl_add64:
  assumes "\<forall>x\<in>set xs. 0 \<le> x \<and> x \<le> 100" "\<bar>acc\<bar> + 101 * real (length xs) \<le> 8000"
  shows "\<exists>S. foldl (add binary64) (Fin acc) (map Fin xs) = Fin S
           \<and> \<bar>S - (acc + sum_list xs)\<bar> \<le> real (length xs) / 1000000000000"
  using assms
proof (induction xs arbitrary: acc)
  case Nil
  then show ?case by simp
next
  case (Cons x xs)
  have x: "0 \<le> x" "x \<le> 100" using Cons.prems(1) by simp_all
  have len: "\<bar>acc\<bar> + 101 * real (length xs) + 101 \<le> 8000" using Cons.prems(2) by simp
  have l0: "0 \<le> 101 * real (length xs)" by simp
  define acc' where "acc' = nearest64 (acc + x)"
  have b: "\<bar>acc + x\<bar> \<le> 8000" using x len l0 by linarith
  have a': "binary64 (acc + x) = Fin acc'" "\<bar>acc' - (acc + x)\<bar> \<le> 1 / 1000000000000"
    using round64_8000(1,3)[OF b] by (simp_all add: acc'_def)
  have "\<bar>acc'\<bar> + 101 * real (length xs) \<le> 8000" using a'(2) x len by linarith
  then obtain S where S: "foldl (add binary64) (Fin acc') (map Fin xs) = Fin S"
      "\<bar>S - (acc' + sum_list xs)\<bar> \<le> real (length xs) / 1000000000000"
    using Cons.IH[of acc'] Cons.prems(1) by auto
  have "\<bar>S - (acc + (x + sum_list xs))\<bar>
      \<le> real (length xs) / 1000000000000 + 1 / 1000000000000"
    using S(2) a'(2) by linarith
  then have "\<bar>S - (acc + sum_list (x # xs))\<bar>
      \<le> real (length xs) / 1000000000000 + 1 / 1000000000000"
    by simp
  also have "\<dots> = real (length (x # xs)) / 1000000000000" by (simp add: add_divide_distrib)
  finally have "\<bar>S - (acc + sum_list (x # xs))\<bar> \<le> real (length (x # xs)) / 1000000000000" .
  moreover have "foldl (add binary64) (Fin acc) (map Fin (x # xs)) = Fin S"
    using S(1) by (simp add: a'(1))
  ultimately show ?case by blast
qed

lemma new_flow64_close:
  assumes walls: "list_all2 (\<lambda>t x. normalizeNumber binary64 t 2 = Inr (Fin x)) (wall_texts wall) xs"
    and xs: "\<forall>x\<in>set xs. 0 \<le> x \<and> x \<le> 100" "2 / 100 \<le> sum_list xs / 20"
    and w: "normalizeNumber binary64 w_text 2 = Inr (Fin w)" "0 \<le> w" "w \<le> 100"
    and f: "normalizeNumber binary64 f_text 2 = Inr (Fin f)" "0 \<le> f" "f \<le> 1000"
  shows "\<exists>m v. calculateNewFlow binary64 wall w_text f_text = Inr (NewFlowRecommended (Fin v))
           \<and> \<bar>m - sum_list xs / 20\<bar> \<le> 51 / 10000
           \<and> \<bar>v - w / m * f\<bar> \<le> 51 / 10000"
proof -
  have len: "length xs = 20"
    using list_all2_lengthD[OF walls] by (simp add: length_wall_texts)
  have push: "push_measurements binary64 (wall_texts wall) = Inr (map Fin xs)"
    by (rule push_measurements_numbers[OF walls])
  obtain S where S: "foldl (add binary64) (Fin 0) (map Fin xs) = Fin S"
      "\<bar>S - (0 + sum_list xs)\<bar> \<le> real (length xs) / 1000000000000"
    using foldl_add64[OF xs(1), of 0] len by auto
  define \<mu> where "\<mu> = sum_list xs / 20"
  have s0: "0 \<le> sum_list xs" using xs(1) by (simp add: sum_list_nonneg)
  have s1: "sum_list xs \<le> 100 * real (length xs)"
    using xs(1) sum_list_mono[of xs "\<lambda>x. x" "\<lambda>x. 100"] by (simp add: sum_list_triv)
  have \<mu>r: "2 / 100 \<le> \<mu>" "\<mu> \<le> 100" using xs(2) s1 len by (simp_all add: \<mu>_def)
  define \<sigma> where "\<sigma> = sum_list xs"
  have "\<bar>S - \<sigma>\<bar> \<le> 20 / 1000000000000" using S(2) len by (simp add: \<sigma>_def)
  then have "\<bar>S / 20 - \<sigma> / 20\<bar> \<le> 1 / 1000000000000" by linarith
  then have S\<mu>: "\<bar>S / 20 - \<mu>\<bar> \<le> 1 / 1000000000000" by (simp add: \<mu>_def \<sigma>_def)
  have qb: "\<bar>S / 20\<bar> \<le> 7000" using S\<mu> \<mu>r by linarith
  obtain k where k: "normalizeNumber binary64 (binary64 (S / 20)) 2
        = Inr (Fin (nearest64 (of_int k / 100)))"
      "\<bar>nearest64 (of_int k / 100) - S / 20\<bar> \<le> 5000002 / 1000000000"
    using normalize64_round[OF qb] by blast
  define m where "m = nearest64 (of_int k / 100)"
  have m\<mu>: "\<bar>m - \<mu>\<bar> \<le> 50001 / 10000000" using k(2) S\<mu> unfolding m_def by linarith
  have mr: "149 / 10000 \<le> m" "m \<le> 101" using m\<mu> \<mu>r by linarith+
  have m0: "0 < m" "m \<noteq> 0" using mr by linarith+
  define u where "u = w / m"
  have "w / m \<le> 100 / (149 / 10000)" using w(2,3) mr by (intro frac_le) auto
  also have "\<dots> \<le> (6712 :: real)" by simp
  finally have ur: "0 \<le> u" "u \<le> 6712" using w(2) m0 by (simp_all add: u_def)
  have ub: "\<bar>u\<bar> \<le> 8000" using ur by simp
  define U where "U = nearest64 u"
  have U: "binary64 u = Fin U" "\<bar>U - u\<bar> \<le> 1 / 1000000000000"
    using round64_8000(1,3)[OF ub] by (simp_all add: U_def)
  have Ur: "\<bar>U\<bar> \<le> 6713" using U(2) ur by linarith
  have "\<bar>U * f\<bar> = \<bar>U\<bar> * f" using f(2) by (simp add: abs_mult)
  also have "\<dots> \<le> 6713 * 1000" using Ur f(2,3) by (intro mult_mono) auto
  finally have pb: "\<bar>U * f\<bar> \<le> 19000000" by simp
  obtain k2 where k2: "normalizeNumber binary64 (binary64 (U * f)) 2
        = Inr (Fin (nearest64 (of_int k2 / 100)))"
      "\<bar>nearest64 (of_int k2 / 100) - U * f\<bar> \<le> 500002 / 100000000"
    using normalize64_round_big[OF pb] by blast
  define v where "v = nearest64 (of_int k2 / 100)"
  have e: "U * f - u * f = (U - u) * f" by (simp add: algebra_simps)
  have "\<bar>U * f - u * f\<bar> = \<bar>U - u\<bar> * f"
    unfolding e by (rule abs_mult_pos[symmetric]) (rule f(2))
  also have "\<dots> \<le> (1 / 1000000000000) * 1000" using U(2) f(2,3) by (intro mult_mono) auto
  finally have "\<bar>U * f - u * f\<bar> \<le> 1 / 1000000000" by simp
  then have vu: "\<bar>v - u * f\<bar> \<le> 51 / 10000" using k2(2) unfolding v_def by linarith
  have b20: "binary64 20 = Fin 20" by (simp add: eval_simps)
  have code: "calculateNewFlow binary64 wall w_text f_text = Inr (NewFlowRecommended (Fin v))"
    unfolding calculateNewFlow_def
    using m0
    by (simp add: push len binary64_0 S(1) b20 k(1) m_def[symmetric] w(1) f(1)
        u_def[symmetric] U(1) k2(1) v_def[symmetric] Let_def)
  have "\<bar>m - sum_list xs / 20\<bar> \<le> 51 / 10000" using m\<mu> unfolding \<mu>_def by linarith
  then show ?thesis using code vu unfolding u_def by blast
qed

text \<open>
  C4, in doubles. Let the twenty measurements as the calculator reads them, each normalised
  to two decimals, lie between 0 and 100 with an arithmetic mean of at least 0.02, and let
  the width \<open>w\<close> and the flow \<open>f\<close> as it reads them, normalised to two decimals, lie between
  0 and 100 and between 0 and 1000. The calculator shows a new flow within 0.0051 of
  \<open>(w / m) * f\<close> for some \<open>m\<close> within 0.0051 of the arithmetic mean of the measurements. Twenty
  measurements of 0.42, a width of 0.40 and a flow of 100 give exactly 95.24.
\<close>

theorem new_flow_close_to_proportion:
  "(list_all2 (\<lambda>t x. normalizeNumber binary64 t 2 = Inr (Fin x)) (wall_texts wall) xs
      \<and> (\<forall>x\<in>set xs. 0 \<le> x \<and> x \<le> 100) \<and> 2 / 100 \<le> sum_list xs / 20
      \<and> normalizeNumber binary64 w_text 2 = Inr (Fin w) \<and> 0 \<le> w \<and> w \<le> 100
      \<and> normalizeNumber binary64 f_text 2 = Inr (Fin f) \<and> 0 \<le> f \<and> f \<le> 1000
    \<longrightarrow> (\<exists>m v. calculateNewFlow binary64 wall w_text f_text
                = Inr (NewFlowRecommended (Fin v))
              \<and> \<bar>m - sum_list xs / 20\<bar> \<le> 51 / 10000
              \<and> \<bar>v - w / m * f\<bar> \<le> 51 / 10000))
   \<and> calculateNewFlow binary64 (\<lambda>i j. Fin (42 / 100)) (Fin (40 / 100)) (Fin 100)
       = Inr (NewFlowRecommended (binary64 (9524 / 100)))"
proof (intro conjI impI)
  show "calculateNewFlow binary64 (\<lambda>i j. Fin (42 / 100)) (Fin (40 / 100)) (Fin 100)
       = Inr (NewFlowRecommended (binary64 (9524 / 100)))"
    by (simp add: calculateNewFlow_def wall_texts_list eval_simps)
qed (use new_flow64_close[of wall xs w_text w f_text f] in blast)

theorem new_flow_close_to_proportion_witness:
  "list_all2 (\<lambda>t x. normalizeNumber binary64 t 2 = Inr (Fin x)) (wall_texts wall_40_then_41)
     (replicate 10 (3602879701896397 / 9007199254740992)
        @ replicate 10 (7385903388887613 / 18014398509481984))
   \<and> normalizeNumber binary64 (Fin (40 / 100)) 2
       = Inr (Fin (3602879701896397 / 9007199254740992))
   \<and> normalizeNumber binary64 (Fin 100) 2 = Inr (Fin 100)
   \<and> (\<exists>m v. calculateNewFlow binary64 wall_40_then_41 (Fin (40 / 100)) (Fin 100)
                = Inr (NewFlowRecommended (Fin v))
              \<and> \<bar>m - sum_list (replicate 10 (3602879701896397 / 9007199254740992)
                        @ replicate 10 (7385903388887613 / 18014398509481984)) / 20\<bar>
                  \<le> 51 / 10000
              \<and> \<bar>v - 3602879701896397 / 9007199254740992 / m * 100\<bar> \<le> 51 / 10000)"
proof -
  have n40: "normalizeNumber binary64 (Fin (2 / 5)) 2
       = Inr (Fin (3602879701896397 / 9007199254740992))"
    by (simp add: eval_simps)
  have n41: "normalizeNumber binary64 (Fin (41 / 100)) 2
       = Inr (Fin (7385903388887613 / 18014398509481984))"
    by (simp add: eval_simps)
  have n100: "normalizeNumber binary64 (Fin 100) 2 = Inr (Fin 100)"
    by (simp add: eval_simps)
  have l: "list_all2 (\<lambda>t x. normalizeNumber binary64 t 2 = Inr (Fin x))
     (wall_texts wall_40_then_41)
     (replicate 10 (3602879701896397 / 9007199254740992)
        @ replicate 10 (7385903388887613 / 18014398509481984))"
    by (simp add: wall_texts_list wall_40_then_41_def n40 n41 numeral_eq_Suc)
  show ?thesis
    using l n40 n100
      new_flow_close_to_proportion
        [where wall = wall_40_then_41
           and xs = "replicate 10 (3602879701896397 / 9007199254740992)
                @ replicate 10 (7385903388887613 / 18014398509481984)"
           and w_text = "Fin (40 / 100)" and w = "3602879701896397 / 9007199254740992"
           and f_text = "Fin 100" and f = 100]
    by (simp add: sum_list_replicate)
qed

text \<open>
  C4 as stated fails: the calculator rounds the mean to two decimals before dividing. With
  nineteen measurements of 0.42 and one of 0.43, width 0.40 and flow 100, the
  specification's formula gives \<open>80000 / 841\<close> (about 95.12), and the calculator shows 95.24,
  the value for a mean of 0.42.
\<close>

theorem new_flow_not_proportion:
  "calculateNewFlow exact wall_19_of_42 (Fin (40 / 100)) (Fin 100)
     = Inr (NewFlowRecommended (Fin (9524 / 100)))
   \<and> calculateNewFlow binary64 wall_19_of_42 (Fin (40 / 100)) (Fin 100)
     = Inr (NewFlowRecommended (binary64 (9524 / 100)))
   \<and> spec_newFlow (replicate 19 (42 / 100) @ [43 / 100]) (40 / 100) 100 = 80000 / 841
   \<and> Fin (9524 / 100) \<noteq> Fin (80000 / 841)
   \<and> binary64 (9524 / 100) \<noteq> Fin (80000 / 841)"
  by (simp add: calculateNewFlow_def wall_texts_list wall_19_of_42_def spec_newFlow_def
      sum_list_replicate eval_simps)

end
